theory Spec2Isabelle
  imports Main "HOL-Library.Word"
begin

section \<open>Task trees (packages/runner/src/types/tasks, as used by utils/collect.ts)\<close>

text \<open>
  A task is a tagged union over \<open>type\<close>: a suite owns an ordered array of child tasks, a
  test and a custom task own none. The fields every variant shares (\<open>TaskBase\<close>) are kept
  in one record. \<open>id\<close> clashes with the identity function of HOL and is called
  \<open>task_id\<close>.
\<close>

datatype run_mode = Run | Skip | Only | Todo

datatype task_state = Pass | Fail | SkipState

datatype task_type = TSuite | TTest | TCustom

text \<open>
  \<open>processError\<close> comes from the package \<open>@vitest/utils\<close>, which is not part of these
  sources: it turns a thrown value into a serialisable error object. The model keeps the
  message of the thrown value and marks the value as processed.
\<close>

datatype thrown = Error string

datatype test_error = ProcessedError string

fun processError :: "thrown \<Rightarrow> test_error" where
  "processError (Error msg) = ProcessedError msg"

record task_result =
  state :: task_state
  errors :: "test_error list"

record task_base =
  task_id :: string
  name :: string
  mode :: run_mode
  result :: "task_result option"

datatype task = Suite task_base "task list" | Test task_base | Custom task_base

fun base :: "task \<Rightarrow> task_base" where
  "base (Suite b ts) = b"
| "base (Test b) = b"
| "base (Custom b) = b"

fun tasks :: "task \<Rightarrow> task list" where
  "tasks (Suite b ts) = ts"
| "tasks (Test b) = []"
| "tasks (Custom b) = []"

fun type_of :: "task \<Rightarrow> task_type" where
  "type_of (Suite b ts) = TSuite"
| "type_of (Test b) = TTest"
| "type_of (Custom b) = TCustom"

text \<open>Assignments to a field of a task, \<open>t.mode = m\<close>, \<open>t.id = i\<close>, \<open>t.result = r\<close>.\<close>

fun set_base :: "task_base \<Rightarrow> task \<Rightarrow> task" where
  "set_base b' (Suite b ts) = Suite b' ts"
| "set_base b' (Test b) = Test b'"
| "set_base b' (Custom b) = Custom b'"

definition set_mode :: "run_mode \<Rightarrow> task \<Rightarrow> task" where
  "set_mode m t = set_base ((base t)\<lparr>mode := m\<rparr>) t"

definition set_id :: "string \<Rightarrow> task \<Rightarrow> task" where
  "set_id i t = set_base ((base t)\<lparr>task_id := i\<rparr>) t"

definition set_result :: "task_result option \<Rightarrow> task \<Rightarrow> task" where
  "set_result r t = set_base ((base t)\<lparr>result := r\<rparr>) t"

lemma size_set_base [simp]: "size (set_base b t) = size t"
  by (cases t) simp_all

lemma size_set_mode [simp]: "size (set_mode m t) = size t"
  by (simp add: set_mode_def)

lemma size_set_id [simp]: "size (set_id i t) = size t"
  by (simp add: set_id_def)

lemma size_set_result [simp]: "size (set_result r t) = size t"
  by (simp add: set_result_def)

section \<open>Numbers as strings\<close>

text \<open>
  A template literal \<open>`${n}`\<close> of an integral number prints it in decimal, with a leading
  minus sign when it is negative.
\<close>

fun dec_nat :: "nat \<Rightarrow> string" where
  "dec_nat n = (if n < 10 then [''0123456789'' ! n]
                else dec_nat (n div 10) @ [''0123456789'' ! (n mod 10)])"

definition dec_int :: "int \<Rightarrow> string" where
  "dec_int i = (if i < 0 then CHR ''-'' # dec_nat (nat (- i)) else dec_nat (nat i))"

section \<open>generateHash (utils/collect.ts, lines 97-108)\<close>

text \<open>
  A JavaScript string is a sequence of UTF-16 code units; \<open>charCodeAt\<close> reads one as a
  number between 0 and 65535. The numbers of the loop are doubles that hold integers far
  below \<open>2 ^ 53\<close>, so they are modelled as \<open>int\<close>, exactly. The bitwise operators first
  convert their operands with \<open>ToInt32\<close>, the wrap-around into \<open>[- 2 ^ 31, 2 ^ 31)\<close>.
\<close>

type_synonym code_unit = "16 word"

definition toInt32 :: "int \<Rightarrow> int" where
  "toInt32 x = (x + 2 ^ 31) mod 2 ^ 32 - 2 ^ 31"

text \<open>\<open>x << n\<close>\<close>

definition shl32 :: "int \<Rightarrow> nat \<Rightarrow> int" where
  "shl32 x n = toInt32 (toInt32 x * 2 ^ (n mod 32))"

text \<open>\<open>x & y\<close> for \<open>y\<close> the same number as \<open>x\<close>: the bitwise and of a value with itself.\<close>

definition and_self32 :: "int \<Rightarrow> int" where
  "and_self32 x = toInt32 x"

definition hash_step :: "code_unit \<Rightarrow> int \<Rightarrow> int" where
  "hash_step c hash = and_self32 (shl32 hash 5 - hash + uint c)"

definition generateHash :: "code_unit list \<Rightarrow> string" where
  "generateHash str =
     (if length str = 0 then dec_int 0
      else dec_int (fold hash_step str 0))"

text \<open>
  The hash as the specification words it: a 32-bit rolling hash,
  \<open>hash = hash * 31 + charCode\<close> truncated to 32 bits at each step, stringified.
\<close>

definition spec_rolling_hash :: "code_unit list \<Rightarrow> 32 word" where
  "spec_rolling_hash str = fold (\<lambda>c h. h * 31 + ucast c) str 0"

definition spec_generateHash :: "code_unit list \<Rightarrow> string" where
  "spec_generateHash str = dec_int (sint (spec_rolling_hash str))"

section \<open>Mode interpretation (utils/collect.ts, lines 9-95)\<close>

text \<open>
  The functions of this file change the tasks of a tree in place. A tree owns its tasks
  and no task occurs twice in it, so each function is modelled by the tree it leaves
  behind. None of them throws.

  \<open>someTasksAreOnly\<close> (lines 65-69); it is only ever called on a suite.
\<close>

fun someTasksAreOnly :: "task \<Rightarrow> bool" where
  "someTasksAreOnly (Suite b ts) =
     list_ex (\<lambda>t. mode (base t) = Only \<or> (type_of t = TSuite \<and> someTasksAreOnly t)) ts"
| "someTasksAreOnly (Test b) = False"
| "someTasksAreOnly (Custom b) = False"

text \<open>
  \<open>skipAllTasks\<close> (lines 71-80): a child in mode \<open>run\<close> is set to \<open>skip\<close> and, when it is a
  suite, entered; a child in another mode is left as it is, with all below it.
\<close>

function skipAllTasks :: "task \<Rightarrow> task" where
  "skipAllTasks (Suite b ts) =
     Suite b (map (\<lambda>t. if mode (base t) = Run
                        then (let t' = set_mode Skip t
                              in if type_of t' = TSuite then skipAllTasks t' else t')
                        else t) ts)"
| "skipAllTasks (Test b) = Test b"
| "skipAllTasks (Custom b) = Custom b"
  by pat_completeness auto
termination
  by (relation "measure size") (auto simp: less_Suc_eq_le size_list_estimation')

text \<open>\<open>checkAllowOnly\<close> (lines 82-95) and the error it builds.\<close>

definition only_error :: test_error where
  "only_error = processError (Error
     ''[Vitest] Unexpected .only modifier. Remove it or pass --allowOnly argument to bypass this error'')"

definition checkAllowOnly :: "task \<Rightarrow> bool \<Rightarrow> task" where
  "checkAllowOnly task allowOnly =
     (if allowOnly then task
      else set_result (Some \<lparr>state = Fail, errors = [only_error]\<rparr>) task)"

text \<open>
  \<open>getTaskFullName\<close> (lines 61-63) follows the \<open>suite\<close> reference of a task upwards. The
  reference is a back pointer into the tree; the model passes the chain it leads through
  instead: the name of the task, then the name of its suite, of the suite of that suite,
  and so on, ending where a task has no \<open>suite\<close> reference. The function is never called
  on an empty chain.
\<close>

fun getTaskFullName :: "string list \<Rightarrow> string" where
  "getTaskFullName [] = []"
| "getTaskFullName [n] = n"
| "getTaskFullName (n # s # ss) = getTaskFullName (s # ss) @ '' '' @ n"

text \<open>
  The name pattern is a string or a \<open>RegExp\<close>; \<open>String.prototype.match\<close> and the regular
  expression engine are built into the language and not part of these sources. A pattern
  is modelled by the set of names it matches. An absent pattern, like the empty string,
  is falsy in \<open>namePattern && ...\<close> and is modelled by \<open>None\<close>.
\<close>

type_synonym name_pattern = "string \<Rightarrow> bool"

text \<open>
  The callback of \<open>suite.tasks.forEach\<close> in \<open>interpretTaskModes\<close> starts with two steps
  that do not recurse: the only-rule (lines 22-37) and, for a test, the name filter (lines
  38-42). \<open>suites\<close> is the chain of suite names that the children of the interpreted suite
  reach through their \<open>suite\<close> references.
\<close>

definition only_step :: "bool \<Rightarrow> bool \<Rightarrow> bool \<Rightarrow> task \<Rightarrow> task" where
  "only_step onlyMode includeTask allowOnly t =
     (if onlyMode then
        (if type_of t = TSuite \<and> (includeTask \<or> someTasksAreOnly t) then
           (if mode (base t) = Only then set_mode Run (checkAllowOnly t allowOnly) else t)
         else if mode (base t) = Run \<and> \<not> includeTask then set_mode Skip t
         else if mode (base t) = Only then set_mode Run (checkAllowOnly t allowOnly)
         else t)
      else t)"

definition name_step :: "string list \<Rightarrow> name_pattern option \<Rightarrow> task \<Rightarrow> task" where
  "name_step suites namePattern t =
     (case namePattern of
        None \<Rightarrow> t
      | Some pattern \<Rightarrow>
          if \<not> pattern (getTaskFullName (name (base t) # suites)) then set_mode Skip t else t)"

lemma size_checkAllowOnly [simp]: "size (checkAllowOnly t a) = size t"
  by (simp add: checkAllowOnly_def)

lemma size_only_step [simp]: "size (only_step om inc a t) = size t"
  by (simp add: only_step_def)

text \<open>
  \<open>interpretTaskModes\<close> (lines 9-59). The parameter \<open>locationFilters\<close> is not read by the
  function and is left out; the optional booleans are \<open>False\<close> when absent. The function
  is typed for a suite; on another task there is nothing to iterate over.
\<close>

function interpretTaskModes ::
  "string list \<Rightarrow> task \<Rightarrow> name_pattern option \<Rightarrow> bool \<Rightarrow> bool \<Rightarrow> bool \<Rightarrow> task" where
  "interpretTaskModes suites (Suite b ts) namePattern onlyMode parentIsOnly allowOnly =
     (let suiteIsOnly = parentIsOnly \<or> mode b = Only;
          ts' = map (\<lambda>t.
                  let includeTask = suiteIsOnly \<or> mode (base t) = Only;
                      t1 = only_step onlyMode includeTask allowOnly t
                  in if type_of t1 = TTest then name_step suites namePattern t1
                     else if type_of t1 = TSuite then
                       (if mode (base t1) = Skip then skipAllTasks t1
                        else interpretTaskModes (name (base t1) # suites) t1 namePattern
                               onlyMode includeTask allowOnly)
                     else t1) ts
      in if mode b = Run \<and> length ts' \<noteq> 0 \<and> list_all (\<lambda>i. mode (base i) \<noteq> Run) ts'
         then Suite (b\<lparr>mode := Skip\<rparr>) ts'
         else Suite b ts')"
| "interpretTaskModes suites (Test b) namePattern onlyMode parentIsOnly allowOnly = Test b"
| "interpretTaskModes suites (Custom b) namePattern onlyMode parentIsOnly allowOnly = Custom b"
  by pat_completeness auto
termination
  by (relation "measure (\<lambda>(suites, t, p, om, pio, ao). size t)")
     (auto simp: less_Suc_eq_le size_list_estimation')

text \<open>The body of the \<open>forEach\<close> callback of \<open>interpretTaskModes\<close> (lines 19-51) and the
  closing check (lines 53-58), named for the proofs.\<close>

definition interpretChild ::
  "string list \<Rightarrow> name_pattern option \<Rightarrow> bool \<Rightarrow> bool \<Rightarrow> bool \<Rightarrow> task \<Rightarrow> task" where
  "interpretChild suites namePattern onlyMode suiteIsOnly allowOnly t =
     (let includeTask = suiteIsOnly \<or> mode (base t) = Only;
          t1 = only_step onlyMode includeTask allowOnly t
      in if type_of t1 = TTest then name_step suites namePattern t1
         else if type_of t1 = TSuite then
           (if mode (base t1) = Skip then skipAllTasks t1
            else interpretTaskModes (name (base t1) # suites) t1 namePattern
                   onlyMode includeTask allowOnly)
         else t1)"

definition collapse :: "task_base \<Rightarrow> task list \<Rightarrow> task" where
  "collapse b ts' =
     (if mode b = Run \<and> length ts' \<noteq> 0 \<and> list_all (\<lambda>i. mode (base i) \<noteq> Run) ts'
      then Suite (b\<lparr>mode := Skip\<rparr>) ts'
      else Suite b ts')"

text \<open>
  A \<open>RegExp\<close> whose source consists of literal characters only, such as \<open>/A B/\<close>, matches
  exactly the strings in which the source occurs.
\<close>

fun occurs_in :: "string \<Rightarrow> string \<Rightarrow> bool" where
  "occurs_in lit [] = (lit = [])"
| "occurs_in lit (c # cs) = (take (length lit) (c # cs) = lit \<or> occurs_in lit cs)"

definition literal_pattern :: "string \<Rightarrow> string \<Rightarrow> bool" where
  "literal_pattern lit s = occurs_in lit s"

text \<open>A task as the collector creates it: no id yet, no result.\<close>

definition new_task :: "string \<Rightarrow> run_mode \<Rightarrow> task_base" where
  "new_task n m = \<lparr>task_id = [], name = n, mode = m, result = None\<rparr>"

text \<open>Small trees for the concrete statements.\<close>

definition only_B :: task where
  "only_B = Suite (new_task ''A'' Run) [Test (new_task ''B'' Only)]"

definition suite_A :: task where
  "suite_A = Suite (new_task ''A'' Run) [Test (new_task ''B'' Run)]"

definition file_A :: task where
  "file_A = Suite (new_task ''a.test.ts'' Run) [suite_A]"

definition only_pair :: task where
  "only_pair = Suite (new_task ''f.test.ts'' Run)
                 [Test (new_task ''t1'' Run), Test (new_task ''t2'' Only)]"

section \<open>calculateSuiteHash (utils/collect.ts, lines 110-117)\<close>

text \<open>
  A child gets its id from the id of its parent, which the parent received just before
  its children are visited, and from its index among its siblings.
\<close>

declare dec_nat.simps [simp del]

lemma size_nth_le: "i < length ts \<Longrightarrow> size (ts ! i) \<le> size_list size ts"
  by (meson nth_mem size_list_estimation' order_refl)

function calculateSuiteHash :: "task \<Rightarrow> task" where
  "calculateSuiteHash (Suite b ts) =
     Suite b (map (\<lambda>(idx, t).
                let t' = set_id (task_id b @ ''_'' @ dec_nat idx) t
                in if type_of t' = TSuite then calculateSuiteHash t' else t')
              (enumerate 0 ts))"
| "calculateSuiteHash (Test b) = Test b"
| "calculateSuiteHash (Custom b) = Custom b"
  by pat_completeness auto
termination
  by (relation "measure size")
     (auto simp: less_Suc_eq_le size_nth_le in_set_enumerate_eq)

text \<open>The task at a position of a tree: a path of child indices from the root.\<close>

fun task_at :: "task \<Rightarrow> nat list \<Rightarrow> task option" where
  "task_at t [] = Some t"
| "task_at t (i # p) = (if i < length (tasks t) then task_at (tasks t ! i) p else None)"

text \<open>The body of the \<open>forEach\<close> callback of \<open>calculateSuiteHash\<close>, named for the proofs.\<close>

definition hash_child :: "task_base \<Rightarrow> nat \<Rightarrow> task \<Rightarrow> task" where
  "hash_child b idx t =
     (let t' = set_id (task_id b @ ''_'' @ dec_nat idx) t
      in if type_of t' = TSuite then calculateSuiteHash t' else t')"

text \<open>Reading a decimal numeral back, to show that different indices print differently.\<close>

definition undec :: "string \<Rightarrow> nat" where
  "undec s = foldl (\<lambda>acc c. 10 * acc + (of_char c - 48)) 0 s"

text \<open>The id of the task at a path below a root with the given id.\<close>

definition path_id :: "string \<Rightarrow> nat list \<Rightarrow> string" where
  "path_id root p = root @ concat (map (\<lambda>i. ''_'' @ dec_nat i) p)"

definition hashed_abc :: task where
  "hashed_abc = Suite (new_task ''f'' Run)
     [Test (new_task ''a'' Run),
      Suite (new_task ''s'' Run) [Test (new_task ''b'' Run), Test (new_task ''c'' Run)]]"

section \<open>Watch mode (packages/vitest/src/node/core.ts)\<close>

text \<open>
  The fields of the \<open>Vitest\<close> instance that the watcher reads and writes. The three sets
  are JavaScript \<open>Set\<close>s of file paths. \<open>expanded\<close> is not a field of the source: it is a
  log, in order, of the paths whose importers \<open>handleFileChanged\<close> went on to visit, kept
  to state that no path is expanded twice.
\<close>

record vitest_state =
  invalidates :: "string set"
  changedTests :: "string set"
  watchedTests :: "string set"
  restartsCount :: nat
  isFirstRun :: bool
  expanded :: "string list"

text \<open>
  \<open>watchTests\<close> (lines 840-844). \<open>slash\<close> comes from the package \<open>@vitest/utils\<close> and is
  a parameter here.
\<close>

definition watchTests :: "(string \<Rightarrow> string) \<Rightarrow> string list \<Rightarrow> vitest_state \<Rightarrow> vitest_state" where
  "watchTests slash tests st = st\<lparr>watchedTests := set (map slash tests)\<rparr>"

text \<open>
  The callback that \<open>scheduleRerun\<close> hands to \<open>setTimeout\<close> (lines 783-826), up to the
  decision which files to run. \<open>currentCount\<close> is the restart count captured when the
  rerun was scheduled. \<open>filteredFiles\<close> is \<open>None\<close> when no filename pattern is set and
  otherwise the paths that \<open>globTestFiles\<close> returns for it. The result is the new state
  and the files handed to \<open>runFiles\<close>, or \<open>None\<close> when the callback returns without a run.
\<close>

definition rerunTimer ::
  "nat \<Rightarrow> string set option \<Rightarrow> vitest_state \<Rightarrow> vitest_state \<times> string set option" where
  "rerunTimer currentCount filteredFiles st =
     (let st1 = (if watchedTests st \<noteq> {}
                 then st\<lparr>changedTests := Set.filter (\<lambda>test. test \<in> watchedTests st) (changedTests st)\<rparr>
                 else st)
      in if changedTests st1 = {} then (st1\<lparr>invalidates := {}\<rparr>, None)
         else if restartsCount st1 \<noteq> currentCount then (st1, None)
         else
           (let st2 = st1\<lparr>isFirstRun := False\<rparr>;
                files = changedTests st2
            in case filteredFiles of
                 None \<Rightarrow> (st2\<lparr>changedTests := {}\<rparr>, Some files)
               | Some filtered \<Rightarrow>
                   (let files' = Set.filter (\<lambda>file. file \<in> filtered) files
                    in if files' = {} then (st2, None)
                       else (st2\<lparr>changedTests := {}\<rparr>, Some files'))))"

definition watching_a :: vitest_state where
  "watching_a = \<lparr>invalidates = {''src/util.ts''}, changedTests = {''b.test.ts''},
                 watchedTests = {''a.test.ts''}, restartsCount = 0, isFirstRun = False,
                 expanded = []\<rparr>"

section \<open>Collection of a batch of files (packages/runner/src/collect.ts)\<close>

text \<open>
  A \<open>File\<close> extends \<open>Suite\<close>: \<open>suite\<close> holds the fields it shares with a suite (id, name,
  mode, result, tasks), the other fields are its own.
\<close>

record file_task =
  suite :: task
  filepath :: string
  projectName :: "string option"
  pool :: "string option"
  setupDuration :: "nat option"
  collectDuration :: "nat option"

text \<open>
  The strings of the model are lists of 8-bit characters; \<open>code_units\<close> reads such a string
  as the JavaScript string with the same character codes.
\<close>

definition code_units :: "string \<Rightarrow> code_unit list" where
  "code_units s = map (\<lambda>c. of_nat (of_char c)) s"

text \<open>
  \<open>createFileTask\<close> (utils/collect.ts, lines 119-140). \<open>relative\<close> comes from the package
  \<open>pathe\<close> and is a parameter. \<open>projectName || ''\<close> is the empty string for an absent and
  for an empty name.
\<close>

definition createFileTask ::
  "(string \<Rightarrow> string \<Rightarrow> string) \<Rightarrow> string \<Rightarrow> string \<Rightarrow> string option \<Rightarrow> string option \<Rightarrow> file_task" where
  "createFileTask relative filepath' root projectName' pool' =
     (let path = relative root filepath'
      in \<lparr>suite = Suite \<lparr>task_id = generateHash (code_units
                                  (path @ (case projectName' of None \<Rightarrow> [] | Some n \<Rightarrow> n))),
                          name = path, mode = Run, result = None\<rparr> [],
          filepath = filepath', projectName = projectName', pool = pool',
          setupDuration = None, collectDuration = None\<rparr>)"

text \<open>The fields of \<open>runner.config\<close> that \<open>collectTests\<close> reads: \<open>root\<close>, \<open>name\<close>,
  \<open>setupFiles\<close>, \<open>testNamePattern\<close> and \<open>allowOnly\<close>.\<close>

record config =
  config_root :: string
  config_name :: "string option"
  config_setupFiles :: "string list"
  config_testNamePattern :: "name_pattern option"
  config_allowOnly :: bool

text \<open>
  An entry of \<open>defaultTasks.tasks\<close> or \<open>collectorContext.tasks\<close>: a task that is already
  resolved (type \<open>test\<close>, \<open>custom\<close> or \<open>suite\<close>) or a collector, together with what its
  \<open>collect(file)\<close> does: it throws or returns a suite.
\<close>

datatype collected = Resolved task | Collector "thrown + task"

text \<open>
  What the collaborators of \<open>collectTests\<close> do while a given file is collected. The setup
  files, the import of the test file and the registration code of the file run outside
  these sources (\<open>setup.ts\<close>, \<open>suite.ts\<close>, \<open>context.ts\<close> and the runner are not part of
  them); each either throws or returns. \<open>clearCollectorContext\<close> resets the registration
  context before every file, so the answers are given per file path. The two times are
  the differences of the clock readings. Hooks are not part of the task tree and are left
  out.
\<close>

record runner =
  relative :: "string \<Rightarrow> string \<Rightarrow> string"
  runner_pool :: "string option"
  runSetupFiles :: "string \<Rightarrow> thrown option"
  setup_time :: "string \<Rightarrow> nat"
  importFile :: "string \<Rightarrow> thrown option"
  defaultSuite_collect :: "string \<Rightarrow> thrown + collected list"
  collectorContext_tasks :: "string \<Rightarrow> collected list"
  collect_time :: "string \<Rightarrow> nat"

text \<open>
  The loop of lines 58-73: tasks pushed so far, entries still to come; the result is the
  task list of the file and the exception that ended the loop, if any.
\<close>

fun push_tasks :: "task list \<Rightarrow> collected list \<Rightarrow> task list \<times> thrown option" where
  "push_tasks file_tasks [] = (file_tasks, None)"
| "push_tasks file_tasks (Resolved c # cs) = push_tasks (file_tasks @ [c]) cs"
| "push_tasks file_tasks (Collector (Inl e) # cs) = (file_tasks, Some e)"
| "push_tasks file_tasks (Collector (Inr s) # cs) =
     (if name (base s) \<noteq> [] \<or> length (tasks s) \<noteq> 0
      then push_tasks (file_tasks @ [s]) cs
      else push_tasks file_tasks cs)"

text \<open>The body of the \<open>try\<close> block (lines 38-76): the file as it leaves the block and the
  exception that was thrown, if any.\<close>

definition try_collect :: "runner \<Rightarrow> config \<Rightarrow> file_task \<Rightarrow> file_task \<times> thrown option" where
  "try_collect r cfg file0 =
     (case (if length (config_setupFiles cfg) \<noteq> 0 then runSetupFiles r (filepath file0) else None) of
        Some e \<Rightarrow> (file0, Some e)
      | None \<Rightarrow>
          (let file1 = file0\<lparr>setupDuration :=
                              Some (if length (config_setupFiles cfg) \<noteq> 0
                                    then setup_time r (filepath file0) else 0)\<rparr>
           in case importFile r (filepath file0) of
                Some e \<Rightarrow> (file1, Some e)
              | None \<Rightarrow>
                  (case defaultSuite_collect r (filepath file0) of
                     Inl e \<Rightarrow> (file1, Some e)
                   | Inr defaultTasks \<Rightarrow>
                       (case push_tasks (tasks (suite file1))
                               (defaultTasks @ collectorContext_tasks r (filepath file0)) of
                          (file_tasks, Some e) \<Rightarrow>
                            (file1\<lparr>suite := Suite (base (suite file1)) file_tasks\<rparr>, Some e)
                        | (file_tasks, None) \<Rightarrow>
                            (file1\<lparr>suite := Suite (base (suite file1)) file_tasks,
                                    collectDuration := Some (collect_time r (filepath file0))\<rparr>,
                             None)))))"

text \<open>
  One iteration of the loop over the paths (lines 31-106). The top-level tasks lose their
  \<open>suite\<close> reference (it points to the default suite, whose id is empty), so the chain of
  suite names starts empty.
\<close>

definition collectFile :: "runner \<Rightarrow> config \<Rightarrow> string \<Rightarrow> file_task" where
  "collectFile r cfg filepath' =
     (let file0 = createFileTask (relative r) filepath' (config_root cfg) (config_name cfg) (runner_pool r);
          (file1, thrown) = try_collect r cfg file0;
          file2 = (case thrown of
                     None \<Rightarrow> file1
                   | Some e \<Rightarrow>
                       file1\<lparr>suite := set_result
                                (Some \<lparr>state = Fail, errors = [processError e]\<rparr>) (suite file1)\<rparr>);
          file3 = file2\<lparr>suite := calculateSuiteHash (suite file2)\<rparr>;
          hasOnlyTasks = someTasksAreOnly (suite file3)
      in file3\<lparr>suite := interpretTaskModes [] (suite file3) (config_testNamePattern cfg)
                             hasOnlyTasks False (config_allowOnly cfg)\<rparr>)"

fun collectTests_loop :: "runner \<Rightarrow> config \<Rightarrow> file_task list \<Rightarrow> string list \<Rightarrow> file_task list" where
  "collectTests_loop r cfg files [] = files"
| "collectTests_loop r cfg files (filepath' # paths) =
     collectTests_loop r cfg (files @ [collectFile r cfg filepath']) paths"

definition collectTests :: "string list \<Rightarrow> runner \<Rightarrow> config \<Rightarrow> file_task list" where
  "collectTests paths r cfg = collectTests_loop r cfg [] paths"

text \<open>The exception thrown while a file is collected, if any.\<close>

definition thrown_in :: "runner \<Rightarrow> config \<Rightarrow> string \<Rightarrow> thrown option" where
  "thrown_in r cfg filepath' =
     snd (try_collect r cfg
            (createFileTask (relative r) filepath' (config_root cfg) (config_name cfg) (runner_pool r)))"

text \<open>The tasks that the body of the \<open>try\<close> block pushed into the file.\<close>

definition registered_tasks :: "runner \<Rightarrow> config \<Rightarrow> string \<Rightarrow> task list" where
  "registered_tasks r cfg filepath' =
     tasks (suite (fst (try_collect r cfg
            (createFileTask (relative r) filepath' (config_root cfg) (config_name cfg) (runner_pool r)))))"

text \<open>A batch of two files: importing the first throws, the second registers one test.\<close>

definition two_files :: runner where
  "two_files = \<lparr>relative = (\<lambda>root p. p), runner_pool = None,
                 runSetupFiles = (\<lambda>p. None), setup_time = (\<lambda>p. 0),
                 importFile = (\<lambda>p. if p = ''bad.test.ts'' then Some (Error ''boom'') else None),
                 defaultSuite_collect = (\<lambda>p. Inr [Resolved (Test (new_task ''works'' Run))]),
                 collectorContext_tasks = (\<lambda>p. []), collect_time = (\<lambda>p. 1)\<rparr>"

definition plain_config :: config where
  "plain_config = \<lparr>config_root = ''/'', config_name = None, config_setupFiles = [],
                    config_testNamePattern = None, config_allowOnly = False\<rparr>"

section \<open>handleFileChanged (core.ts, lines 928-986)\<close>

text \<open>
  The module graph belongs to the dev server, and \<open>getModulesByFilepath\<close> and \<open>isTestFile\<close>
  are methods of \<open>WorkspaceProject\<close>, which is not part of these sources; what they answer
  is given by the project. A module node is known here by the \<open>file\<close> of each of its
  importers (\<open>None\<close> when the importer has no file). A project maps a file path to the
  module nodes of that file; the map is an association list, so a graph has finitely many
  files, and cycles among the importers are allowed.
\<close>

record module_node =
  importers :: "string option list"

record project =
  modules :: "(string \<times> module_node list) list"
  testFiles :: "string set"

definition getModulesByFilepath :: "project \<Rightarrow> string \<Rightarrow> module_node list" where
  "getModulesByFilepath p file = (case map_of (modules p) file of None \<Rightarrow> [] | Some mods \<Rightarrow> mods)"

definition isTestFile :: "project \<Rightarrow> string \<Rightarrow> bool" where
  "isTestFile p file = (file \<in> testFiles p)"

text \<open>
  What \<open>handleFileChanged\<close> reads besides the two sets: the projects, the match of a path
  against \<open>config.forceRerunTriggers\<close> (\<open>mm.isMatch\<close>, from the package \<open>micromatch\<close>) and the
  keys of \<open>state.filesMap\<close>, which are also what \<open>state.getFilepaths()\<close> lists.
\<close>

record watch_env =
  projects :: "project list"
  forceRerunTrigger :: "string \<Rightarrow> bool"
  filesMap :: "string set"

text \<open>\<open>getModuleProjects\<close> (lines 830-835).\<close>

definition getModuleProjects :: "watch_env \<Rightarrow> string \<Rightarrow> project list" where
  "getModuleProjects env file =
     filter (\<lambda>p. length (getModulesByFilepath p file) \<noteq> 0) (projects env)"

text \<open>
  The recursion may follow the importers forever on an endless graph, so the function
  takes fuel (the depth of recursion it may use) and returns \<open>None\<close> when the fuel runs
  out. The three loops of the body take the recursive call as the argument \<open>recur\<close>.

  \<open>mod.importers.forEach\<close> (lines 969-978): the state and the flag \<open>rerun\<close>.
\<close>

fun visit_importers ::
  "(vitest_state \<Rightarrow> string \<Rightarrow> (vitest_state \<times> string list) option) \<Rightarrow> string option list \<Rightarrow>
   vitest_state \<times> bool \<Rightarrow> (vitest_state \<times> bool) option" where
  "visit_importers recur [] acc = Some acc"
| "visit_importers recur (None # rest) acc = visit_importers recur rest acc"
| "visit_importers recur (Some file # rest) (st, rerun) =
     (if file = [] then visit_importers recur rest (st, rerun)
      else case recur st file of
             None \<Rightarrow> None
           | Some (st', heedsRerun) \<Rightarrow>
               visit_importers recur rest (st', if length heedsRerun \<noteq> 0 then True else rerun))"

text \<open>\<open>for (const mod of mods)\<close> (lines 968-979).\<close>

fun visit_mods ::
  "(vitest_state \<Rightarrow> string \<Rightarrow> (vitest_state \<times> string list) option) \<Rightarrow> module_node list \<Rightarrow>
   vitest_state \<times> bool \<Rightarrow> (vitest_state \<times> bool) option" where
  "visit_mods recur [] acc = Some acc"
| "visit_mods recur (m # ms) acc =
     (case visit_importers recur (importers m) acc of
        None \<Rightarrow> None
      | Some acc' \<Rightarrow> visit_mods recur ms acc')"

text \<open>\<open>for (const project of projects)\<close> (lines 951-984): the state and the array \<open>files\<close>.\<close>

fun visit_projects ::
  "(vitest_state \<Rightarrow> string \<Rightarrow> (vitest_state \<times> string list) option) \<Rightarrow> watch_env \<Rightarrow> string \<Rightarrow>
   project list \<Rightarrow> vitest_state \<times> string list \<Rightarrow> (vitest_state \<times> string list) option" where
  "visit_projects recur env file [] acc = Some acc"
| "visit_projects recur env file (p # ps) (st, files) =
     (let mods = getModulesByFilepath p file
      in if length mods = 0 then visit_projects recur env file ps (st, files)
         else
           (let st1 = st\<lparr>invalidates := insert file (invalidates st)\<rparr>
            in if file \<in> filesMap env \<or> isTestFile p file
               then visit_projects recur env file ps
                      (st1\<lparr>changedTests := insert file (changedTests st1)\<rparr>, files @ [file])
               else case visit_mods recur mods (st1, False) of
                      None \<Rightarrow> None
                    | Some (st2, rerun) \<Rightarrow>
                        visit_projects recur env file ps
                          (st2, if rerun then files @ [file] else files)))"

primrec handleFileChanged ::
  "nat \<Rightarrow> watch_env \<Rightarrow> vitest_state \<Rightarrow> string \<Rightarrow> (vitest_state \<times> string list) option" where
  "handleFileChanged 0 env st file = None"
| "handleFileChanged (Suc fuel) env st file =
     (if file \<in> changedTests st \<or> file \<in> invalidates st then Some (st, [])
      else if forceRerunTrigger env file
      then Some (st\<lparr>changedTests := changedTests st \<union> filesMap env\<rparr>, [file])
      else
        (let projs = getModuleProjects env file
         in if length projs = 0
            then (if file \<in> filesMap env \<or> list_ex (\<lambda>p. isTestFile p file) (projects env)
                  then Some (st\<lparr>changedTests := insert file (changedTests st)\<rparr>, [file])
                  else Some (st, []))
            else case visit_projects (handleFileChanged fuel env) env file projs
                        (st\<lparr>expanded := expanded st @ [file]\<rparr>, []) of
                   None \<Rightarrow> None
                 | Some (st', files) \<Rightarrow> Some (st', remdups files)))"

text \<open>The files that the module graph of some project knows.\<close>

definition graph_files :: "watch_env \<Rightarrow> string set" where
  "graph_files env = (\<Union>p \<in> set (projects env). fst ` set (modules p))"

text \<open>
  A graph with a cycle: \<open>a.ts\<close> and \<open>b.ts\<close> import each other, the test \<open>t.test.ts\<close>
  imports \<open>a.ts\<close>, and \<open>a.ts\<close> has one more importer without a file.
\<close>

definition cyclic_project :: project where
  "cyclic_project =
     \<lparr>modules = [(''a.ts'', [\<lparr>importers = [Some ''b.ts'', None, Some ''t.test.ts'']\<rparr>]),
                 (''b.ts'', [\<lparr>importers = [Some ''a.ts'']\<rparr>]),
                 (''t.test.ts'', [\<lparr>importers = []\<rparr>])],
      testFiles = {''t.test.ts''}\<rparr>"

definition cyclic_env :: watch_env where
  "cyclic_env = \<lparr>projects = [cyclic_project], forceRerunTrigger = (\<lambda>file. False),
                  filesMap = {}\<rparr>"

definition idle :: vitest_state where
  "idle = \<lparr>invalidates = {}, changedTests = {}, watchedTests = {}, restartsCount = 0,
           isFirstRun = False, expanded = []\<rparr>"

text \<open>
  Predicates for the statements about the walk: the two sets and the log only grow; the log of
  expanded paths has no repetition and lies within the invalidated paths and \<open>X\<close>.
\<close>

definition grows :: "vitest_state \<Rightarrow> vitest_state \<Rightarrow> bool" where
  "grows st st' =
     (invalidates st \<subseteq> invalidates st' \<and> changedTests st \<subseteq> changedTests st'
      \<and> set (expanded st) \<subseteq> set (expanded st'))"

definition log_inv :: "string set \<Rightarrow> vitest_state \<Rightarrow> bool" where
  "log_inv X st = (distinct (expanded st) \<and> set (expanded st) \<subseteq> X \<union> invalidates st)"

text \<open>A recursive call that returns from every state in which the paths \<open>I\<close> are
  invalidated, with both sets grown and the log kept in order.\<close>

definition returns_above ::
  "(vitest_state \<Rightarrow> string \<Rightarrow> (vitest_state \<times> string list) option) \<Rightarrow> string set \<Rightarrow> bool" where
  "returns_above recur I =
     (\<forall>s g. I \<subseteq> invalidates s \<longrightarrow>
        (\<exists>s' r. recur s g = Some (s', r) \<and> grows s s' \<and> (log_inv {} s \<longrightarrow> log_inv {} s')))"

section \<open>Positions in a tree, and two trees for the propagation rules\<close>

text \<open>The tasks met on the way from a suite down a path of child indices, the suite itself
  left out; the last one is the task at the path.\<close>

fun tasks_on_path :: "task \<Rightarrow> nat list \<Rightarrow> task list" where
  "tasks_on_path t [] = []"
| "tasks_on_path t (i # p) =
     (if i < length (tasks t) then tasks t ! i # tasks_on_path (tasks t ! i) p else [])"

text \<open>The body of the \<open>forEach\<close> callback of \<open>skipAllTasks\<close> (lines 72-79).\<close>

definition skipChild :: "task \<Rightarrow> task" where
  "skipChild t =
     (if mode (base t) = Run
      then (let t' = set_mode Skip t
            in if type_of t' = TSuite then skipAllTasks t' else t')
      else t)"

text \<open>The scenario of the specification: suite \<open>S1\<close> with the tests \<open>t1\<close> and \<open>t2\<close>, the
  latter marked \<open>only\<close>, and suite \<open>S2\<close> with the test \<open>t3\<close>.\<close>

definition scenario :: task where
  "scenario = Suite (new_task ''root'' Run)
     [Suite (new_task ''S1'' Run) [Test (new_task ''t1'' Run), Test (new_task ''t2'' Only)],
      Suite (new_task ''S2'' Run) [Test (new_task ''t3'' Run)]]"

text \<open>
  A file with the suite \<open>S1\<close> of the scenario and a skipped suite \<open>S3\<close> that holds the
  suite \<open>S4\<close>, marked \<open>todo\<close>, with the test \<open>t5\<close>.
\<close>

definition nested_skip :: task where
  "nested_skip = Suite (new_task ''root'' Run)
     [Suite (new_task ''S1'' Run) [Test (new_task ''t1'' Run), Test (new_task ''t2'' Only)],
      Suite (new_task ''S3'' Skip) [Suite (new_task ''S4'' Todo) [Test (new_task ''t5'' Run)]]]"

text \<open>A file with one suite whose only test is marked \<open>todo\<close>.\<close>

definition todo_suite :: task where
  "todo_suite = Suite (new_task ''root'' Run)
     [Suite (new_task ''S'' Run) [Test (new_task ''later'' Todo)]]"

text \<open>
  How a call of \<open>interpretTaskModes\<close> with \<open>onlyMode = true\<close> meets a task, judged from the
  enclosing suites of the task, outermost first, none of them marked \<open>only\<close>. A suite
  that was in mode \<open>skip\<close>, or in mode \<open>run\<close> without a task marked \<open>only\<close> in it, is
  handed to \<open>skipAllTasks\<close>, which goes on through suites in mode \<open>run\<close> only; any other
  suite is interpreted in turn.
\<close>

datatype visit = Interpreted | ForceSkipped | Unvisited

definition force_skips :: "task \<Rightarrow> bool" where
  "force_skips a = (mode (base a) = Skip \<or> (mode (base a) = Run \<and> \<not> someTasksAreOnly a))"

fun only_walk :: "task list \<Rightarrow> visit" where
  "only_walk [] = Interpreted"
| "only_walk (a # rest) =
     (if force_skips a
      then (if list_all (\<lambda>x. mode (base x) = Run) rest then ForceSkipped else Unvisited)
      else only_walk rest)"

text \<open>
  The same for any call of \<open>interpretTaskModes\<close>, with the flags as the code computes them.
  The tasks on a path are taken outermost first, starting with the \<open>suiteIsOnly\<close> of the
  call (line 17). For each, \<open>includeTask\<close> is computed as in line 21. A task that the
  only-rule (lines 22-37) leaves in mode \<open>skip\<close> is handed to \<open>skipAllTasks\<close> when it is a
  suite (lines 44-46), which goes on through tasks in mode \<open>run\<close> only (line 73); any other
  suite is interpreted in turn with \<open>includeTask\<close> for \<open>parentIsOnly\<close> (line 48), and
  computes its own \<open>suiteIsOnly\<close> from that and its mode.
\<close>

fun mode_walk :: "bool \<Rightarrow> bool \<Rightarrow> bool \<Rightarrow> task list \<Rightarrow> visit" where
  "mode_walk onlyMode suiteIsOnly allowOnly [] = Interpreted"
| "mode_walk onlyMode suiteIsOnly allowOnly (a # rest) =
     (let includeTask = suiteIsOnly \<or> mode (base a) = Only;
          a1 = only_step onlyMode includeTask allowOnly a
      in if mode (base a1) = Skip
         then (if list_all (\<lambda>x. mode (base x) = Run) rest then ForceSkipped else Unvisited)
         else mode_walk onlyMode (includeTask \<or> mode (base a1) = Only) allowOnly rest)"

section \<open>Theorems\<close>

subsection \<open>generateHash\<close>

lemma toInt32_sint: "toInt32 x = sint (word_of_int x :: 32 word)"
  by (simp add: toInt32_def sint_sbintrunc' signed_take_bit_eq_take_bit_shift take_bit_eq_mod)

lemma word_of_uint_code_unit: "(word_of_int (uint (c :: code_unit)) :: 32 word) = ucast c"
  by (rule ucast_eq [symmetric])

lemma hash_step_word:
  "hash_step c (sint (h :: 32 word)) = sint (h * 31 + ucast c)"
proof -
  have "(word_of_int (sint (word_of_int (sint h * 32) :: 32 word) - sint h + uint c) :: 32 word)
        = h * 32 - h + word_of_int (uint c)"
    by simp
  also have "\<dots> = h * 31 + ucast c"
    by (simp only: word_of_uint_code_unit) simp
  finally show ?thesis
    by (simp add: hash_step_def and_self32_def shl32_def toInt32_sint mult.commute)
qed

lemma fold_hash_step_word:
  "fold hash_step str (sint (h :: 32 word)) = sint (fold (\<lambda>c h. h * 31 + ucast c) str h)"
  by (induction str arbitrary: h) (simp_all add: hash_step_word)

text \<open>
  C7. \<open>generateHash\<close> is the 32-bit rolling hash \<open>hash * 31 + charCode\<close>, truncated to 32
  bits at each step and printed in decimal; on the empty string it is \<open>"0"\<close>. The
  function reads nothing but its argument, so equal strings give equal hashes.
\<close>

theorem generateHash_rolling:
  "generateHash str = spec_generateHash str \<and> generateHash [] = ''0''"
proof -
  have "fold hash_step str 0 = sint (spec_rolling_hash str)"
    using fold_hash_step_word [of str 0] by (simp add: spec_rolling_hash_def)
  moreover have "spec_generateHash [] = dec_int 0"
    by (simp add: spec_generateHash_def spec_rolling_hash_def)
  moreover have "dec_int 0 = ''0''"
    by (simp add: dec_int_def dec_nat.simps)
  ultimately show ?thesis
    by (cases str) (simp_all add: generateHash_def spec_generateHash_def)
qed

subsection \<open>The steps of interpretTaskModes\<close>

lemma interpretTaskModes_Suite:
  "interpretTaskModes suites (Suite b ts) namePattern onlyMode parentIsOnly allowOnly =
     collapse b (map (interpretChild suites namePattern onlyMode
                        (parentIsOnly \<or> mode b = Only) allowOnly) ts)"
  by (simp only: interpretTaskModes.simps interpretChild_def [abs_def] collapse_def Let_def)

declare interpretTaskModes.simps(1) [simp del]

lemma tasks_collapse [simp]: "tasks (collapse b ts) = ts"
  by (simp add: collapse_def)

lemma tasks_interpretTaskModes:
  "tasks (interpretTaskModes suites (Suite b ts) namePattern onlyMode parentIsOnly allowOnly) =
     map (interpretChild suites namePattern onlyMode (parentIsOnly \<or> mode b = Only) allowOnly) ts"
  by (simp only: interpretTaskModes_Suite tasks_collapse)

lemma base_set_base [simp]: "base (set_base b t) = b"
  by (cases t) simp_all

lemma type_of_set_base [simp]: "type_of (set_base b t) = type_of t"
  by (cases t) simp_all

lemma tasks_set_base [simp]: "tasks (set_base b t) = tasks t"
  by (cases t) simp_all

lemma mode_set_mode [simp]: "mode (base (set_mode m t)) = m"
  by (simp add: set_mode_def)

lemma result_set_mode [simp]: "result (base (set_mode m t)) = result (base t)"
  by (simp add: set_mode_def)

lemma name_set_mode [simp]: "name (base (set_mode m t)) = name (base t)"
  by (simp add: set_mode_def)

lemma type_of_set_mode [simp]: "type_of (set_mode m t) = type_of t"
  by (simp add: set_mode_def)

lemma tasks_set_mode [simp]: "tasks (set_mode m t) = tasks t"
  by (simp add: set_mode_def)

lemma type_of_checkAllowOnly [simp]: "type_of (checkAllowOnly t a) = type_of t"
  by (simp add: checkAllowOnly_def set_result_def)

lemma mode_checkAllowOnly [simp]: "mode (base (checkAllowOnly t a)) = mode (base t)"
  by (simp add: checkAllowOnly_def set_result_def)

lemma name_checkAllowOnly [simp]: "name (base (checkAllowOnly t a)) = name (base t)"
  by (simp add: checkAllowOnly_def set_result_def)

lemma tasks_checkAllowOnly [simp]: "tasks (checkAllowOnly t a) = tasks t"
  by (simp add: checkAllowOnly_def set_result_def)

lemma result_checkAllowOnly:
  "result (base (checkAllowOnly t a)) =
     (if a then result (base t) else Some \<lparr>state = Fail, errors = [only_error]\<rparr>)"
  by (simp add: checkAllowOnly_def set_result_def)

lemma type_of_only_step [simp]: "type_of (only_step om inc a t) = type_of t"
  by (simp add: only_step_def)

lemma name_only_step [simp]: "name (base (only_step om inc a t)) = name (base t)"
  by (simp add: only_step_def)

lemma tasks_only_step [simp]: "tasks (only_step om inc a t) = tasks t"
  by (simp add: only_step_def)

lemma only_step_Only:
  "mode (base t) = Only \<Longrightarrow> mode (base (only_step True inc a t)) = Run"
  by (simp add: only_step_def)

lemma only_step_Only_result:
  "mode (base t) = Only \<Longrightarrow>
     result (base (only_step True inc a t)) =
       (if a then result (base t) else Some \<lparr>state = Fail, errors = [only_error]\<rparr>)"
  by (simp add: only_step_def result_checkAllowOnly)

lemma type_of_name_step [simp]: "type_of (name_step suites np t) = type_of t"
  by (simp add: name_step_def split: option.splits)

lemma result_name_step [simp]: "result (base (name_step suites np t)) = result (base t)"
  by (simp add: name_step_def split: option.splits)

lemma mode_name_step:
  "mode (base (name_step suites np t)) =
     (case np of None \<Rightarrow> mode (base t)
      | Some p \<Rightarrow> if p (getTaskFullName (name (base t) # suites)) then mode (base t) else Skip)"
  by (simp add: name_step_def split: option.splits)

lemma interpretChild_Test:
  "type_of t = TTest \<Longrightarrow>
     interpretChild suites np om sio ao t =
       name_step suites np (only_step om (sio \<or> mode (base t) = Only) ao t)"
  by (simp add: interpretChild_def Let_def)

lemma base_skipAllTasks [simp]: "base (skipAllTasks t) = base t"
  by (cases t) simp_all

lemma base_collapse:
  "base (collapse b ts) =
     (if mode b = Run \<and> ts \<noteq> [] \<and> list_all (\<lambda>i. mode (base i) \<noteq> Run) ts
      then b\<lparr>mode := Skip\<rparr> else b)"
  by (simp add: collapse_def)

lemma result_interpretTaskModes [simp]:
  "result (base (interpretTaskModes suites t np om pio ao)) = result (base t)"
  by (cases t) (simp_all add: interpretTaskModes_Suite base_collapse)

lemma result_interpretChild:
  "result (base (interpretChild suites np om sio ao t)) =
     result (base (only_step om (sio \<or> mode (base t) = Only) ao t))"
  by (simp add: interpretChild_def Let_def)

lemma interpretChild_Custom:
  "type_of t = TCustom \<Longrightarrow>
     interpretChild suites np om sio ao t = only_step om (sio \<or> mode (base t) = Only) ao t"
  by (simp add: interpretChild_def Let_def)

lemma interpretChild_Suite:
  "type_of t = TSuite \<Longrightarrow>
     interpretChild suites np om sio ao t =
       (let t1 = only_step om (sio \<or> mode (base t) = Only) ao t
        in if mode (base t1) = Skip then skipAllTasks t1
           else interpretTaskModes (name (base t1) # suites) t1 np om
                  (sio \<or> mode (base t) = Only) ao)"
  by (simp add: interpretChild_def Let_def)

lemma mode_interpretTaskModes:
  "type_of t = TSuite \<Longrightarrow>
   mode (base (interpretTaskModes suites t np om pio ao)) =
     (let ts' = tasks (interpretTaskModes suites t np om pio ao)
      in if mode (base t) = Run \<and> ts' \<noteq> [] \<and> list_all (\<lambda>i. mode (base i) \<noteq> Run) ts'
         then Skip else mode (base t))"
  by (cases t) (simp_all add: interpretTaskModes_Suite base_collapse)

text \<open>
  C10. A test in mode \<open>only\<close> that \<open>interpretTaskModes\<close> processes with
  \<open>onlyMode = true\<close>, \<open>allowOnly = true\<close> and a name pattern that its full name does not
  match ends in mode \<open>skip\<close>: the name check comes after the only-promotion in the same
  iteration and overrides it.
\<close>

theorem only_test_name_filter:
  assumes "i < length ts" and "type_of (ts ! i) = TTest" and "mode (base (ts ! i)) = Only"
    and "\<not> pattern (getTaskFullName (name (base (ts ! i)) # suites))"
  shows "mode (base (tasks (interpretTaskModes suites (Suite b ts) (Some pattern)
                              True parentIsOnly True) ! i)) = Skip"
  using assms
  by (simp add: tasks_interpretTaskModes interpretChild_Test mode_name_step)

theorem only_test_name_filter_witness:
  "0 < length (tasks only_B) \<and> type_of (tasks only_B ! 0) = TTest
   \<and> mode (base (tasks only_B ! 0)) = Only
   \<and> \<not> literal_pattern ''A C'' (getTaskFullName (name (base (tasks only_B ! 0)) # [''A'']))
   \<and> mode (base (tasks (interpretTaskModes [''A''] only_B (Some (literal_pattern ''A C''))
                              True False True) ! 0)) = Skip"
  using only_test_name_filter [of 0 "[Test (new_task ''B'' Only)]" "literal_pattern ''A C''"
                                  "[''A'']" "new_task ''A'' Run" False]
  by (simp add: only_B_def new_task_def literal_pattern_def)

lemma mode_interpretChild_Test:
  "type_of t = TTest \<Longrightarrow>
     mode (base (interpretChild suites np om sio ao t)) =
       (case np of
          None \<Rightarrow> mode (base (only_step om (sio \<or> mode (base t) = Only) ao t))
        | Some p \<Rightarrow>
            if p (getTaskFullName (name (base t) # suites))
            then mode (base (only_step om (sio \<or> mode (base t) = Only) ao t))
            else Skip)"
  by (simp add: interpretChild_Test mode_name_step split: option.splits)

text \<open>
  C5. A test that \<open>interpretTaskModes\<close> processes while a name pattern is supplied ends in
  mode \<open>skip\<close> when its full name (the names of its suites, outermost first, and its own,
  joined by single spaces) does not match the pattern, whatever \<open>onlyMode\<close> is; a matching
  name leaves the mode that the only-rule gave. For a suite \<open>A\<close> that contains the
  run-mode test \<open>B\<close>, the pattern \<open>/A B/\<close> leaves \<open>B\<close> in mode \<open>run\<close> and \<open>/A C/\<close> demotes
  it to \<open>skip\<close>, both when \<open>A\<close> itself is interpreted and when the file that holds \<open>A\<close> is.
\<close>

theorem name_pattern_filter:
  "(i < length ts \<and> type_of (ts ! i) = TTest
      \<and> \<not> pattern (getTaskFullName (name (base (ts ! i)) # suites))
    \<longrightarrow> mode (base (tasks (interpretTaskModes suites (Suite b ts) (Some pattern)
                               onlyMode parentIsOnly allowOnly) ! i)) = Skip)
   \<and> (i < length ts \<and> type_of (ts ! i) = TTest
      \<and> pattern (getTaskFullName (name (base (ts ! i)) # suites))
    \<longrightarrow> mode (base (tasks (interpretTaskModes suites (Suite b ts) (Some pattern)
                               onlyMode parentIsOnly allowOnly) ! i))
        = mode (base (only_step onlyMode
                        (parentIsOnly \<or> mode b = Only \<or> mode (base (ts ! i)) = Only)
                        allowOnly (ts ! i))))
   \<and> getTaskFullName [''B'', ''A''] = ''A B''
   \<and> interpretTaskModes [''A''] suite_A (Some (literal_pattern ''A B'')) False False False
       = Suite (new_task ''A'' Run) [Test (new_task ''B'' Run)]
   \<and> interpretTaskModes [''A''] suite_A (Some (literal_pattern ''A C'')) False False False
       = Suite (new_task ''A'' Skip) [Test (new_task ''B'' Skip)]
   \<and> interpretTaskModes [] file_A (Some (literal_pattern ''A B'')) False False False
       = Suite (new_task ''a.test.ts'' Run)
           [Suite (new_task ''A'' Run) [Test (new_task ''B'' Run)]]
   \<and> interpretTaskModes [] file_A (Some (literal_pattern ''A C'')) False False False
       = Suite (new_task ''a.test.ts'' Skip)
           [Suite (new_task ''A'' Skip) [Test (new_task ''B'' Skip)]]"
proof -
  have general:
    "i < length ts \<Longrightarrow> type_of (ts ! i) = TTest \<Longrightarrow>
       mode (base (tasks (interpretTaskModes suites (Suite b ts) (Some pattern)
                            onlyMode parentIsOnly allowOnly) ! i))
       = (if pattern (getTaskFullName (name (base (ts ! i)) # suites))
          then mode (base (only_step onlyMode
                        (parentIsOnly \<or> mode b = Only \<or> mode (base (ts ! i)) = Only)
                        allowOnly (ts ! i)))
          else Skip)"
    by (simp add: tasks_interpretTaskModes mode_interpretChild_Test disj_assoc)
  have name: "getTaskFullName [''B'', ''A''] = ''A B''"
    by simp
  have a_b: "interpretTaskModes [''A''] suite_A (Some (literal_pattern ''A B'')) False False False
       = Suite (new_task ''A'' Run) [Test (new_task ''B'' Run)]"
    by (simp add: suite_A_def interpretTaskModes_Suite interpretChild_def only_step_def
        name_step_def collapse_def literal_pattern_def new_task_def)
  have a_c: "interpretTaskModes [''A''] suite_A (Some (literal_pattern ''A C'')) False False False
       = Suite (new_task ''A'' Skip) [Test (new_task ''B'' Skip)]"
    by (simp add: suite_A_def interpretTaskModes_Suite interpretChild_def only_step_def
        name_step_def collapse_def literal_pattern_def new_task_def set_mode_def)
  have f_b: "interpretTaskModes [] file_A (Some (literal_pattern ''A B'')) False False False
       = Suite (new_task ''a.test.ts'' Run)
           [Suite (new_task ''A'' Run) [Test (new_task ''B'' Run)]]"
    by (simp add: file_A_def suite_A_def interpretTaskModes_Suite interpretChild_def only_step_def
        name_step_def collapse_def literal_pattern_def new_task_def)
  have f_c: "interpretTaskModes [] file_A (Some (literal_pattern ''A C'')) False False False
       = Suite (new_task ''a.test.ts'' Skip)
           [Suite (new_task ''A'' Skip) [Test (new_task ''B'' Skip)]]"
    by (simp add: file_A_def suite_A_def interpretTaskModes_Suite interpretChild_def only_step_def
        name_step_def collapse_def literal_pattern_def new_task_def set_mode_def)
  from general name a_b a_c f_b f_c show ?thesis
    by simp
qed

theorem name_pattern_filter_witness:
  "0 < length (tasks suite_A) \<and> type_of (tasks suite_A ! 0) = TTest
   \<and> \<not> literal_pattern ''A C'' (getTaskFullName (name (base (tasks suite_A ! 0)) # [''A'']))
   \<and> literal_pattern ''A B'' (getTaskFullName (name (base (tasks suite_A ! 0)) # [''A'']))
   \<and> mode (base (tasks (interpretTaskModes [''A''] suite_A (Some (literal_pattern ''A C''))
                              True False False) ! 0)) = Skip
   \<and> mode (base (tasks (interpretTaskModes [''A''] suite_A (Some (literal_pattern ''A B''))
                              False False False) ! 0)) = Run"
  using name_pattern_filter [of 0 "[Test (new_task ''B'' Run)]" "literal_pattern ''A C''"
                                "[''A'']" "new_task ''A'' Run" True False False]
        name_pattern_filter [of 0 "[Test (new_task ''B'' Run)]" "literal_pattern ''A B''"
                                "[''A'']" "new_task ''A'' Run" False False False]
  by (simp add: suite_A_def new_task_def literal_pattern_def only_step_def)

lemma only_step_Only_eq:
  "mode (base t) = Only \<Longrightarrow> only_step True inc a t = set_mode Run (checkAllowOnly t a)"
  by (simp add: only_step_def)

lemma mode_interpretChild_Only:
  assumes "mode (base t) = Only"
  shows "mode (base (interpretChild suites np True sio ao t)) =
     (case type_of t of
        TTest \<Rightarrow> (case np of None \<Rightarrow> Run
                   | Some p \<Rightarrow> if p (getTaskFullName (name (base t) # suites)) then Run else Skip)
      | TCustom \<Rightarrow> Run
      | TSuite \<Rightarrow>
          (let ts' = tasks (interpretChild suites np True sio ao t)
           in if ts' \<noteq> [] \<and> list_all (\<lambda>c. mode (base c) \<noteq> Run) ts' then Skip else Run))"
proof (cases "type_of t")
  case TTest
  with assms show ?thesis
    by (simp add: mode_interpretChild_Test only_step_Only split: option.splits)
next
  case TCustom
  with assms show ?thesis
    by (simp add: interpretChild_Custom only_step_Only)
next
  case TSuite
  with assms show ?thesis
    by (simp add: interpretChild_Suite only_step_Only Let_def mode_interpretTaskModes)
qed

text \<open>
  C4. A task in mode \<open>only\<close> that \<open>interpretTaskModes\<close> processes with \<open>onlyMode = true\<close>:
  nothing is thrown (the function returns a tree for every input); the only-rule promotes
  the task to mode \<open>run\<close> whatever \<open>allowOnly\<close> is; with \<open>allowOnly = false\<close> the task's
  result becomes state \<open>fail\<close> with exactly one error, the message about the unexpected
  \<open>.only\<close> modifier; with \<open>allowOnly = true\<close> the result of the task is left as it was.
  After the promotion the mode stays \<open>run\<close> for a custom task, for a test whose name the
  pattern (if any) matches, and for a suite that keeps a child in mode \<open>run\<close>.
\<close>

theorem allow_only_gate:
  assumes "i < length ts" and "mode (base (ts ! i)) = Only"
  shows "(let t = ts ! i;
              promoted = only_step True (parentIsOnly \<or> mode b = Only \<or> mode (base t) = Only)
                           allowOnly t;
              r = tasks (interpretTaskModes suites (Suite b ts) namePattern True
                           parentIsOnly allowOnly) ! i
          in mode (base promoted) = Run
             \<and> (\<not> allowOnly \<longrightarrow>
                  result (base promoted) = Some \<lparr>state = Fail, errors = [only_error]\<rparr>
                  \<and> result (base r) = Some \<lparr>state = Fail, errors = [only_error]\<rparr>)
             \<and> (allowOnly \<longrightarrow>
                  result (base promoted) = result (base t) \<and> result (base r) = result (base t))
             \<and> only_error = ProcessedError
                  ''[Vitest] Unexpected .only modifier. Remove it or pass --allowOnly argument to bypass this error''
             \<and> (type_of t = TCustom \<longrightarrow> mode (base r) = Run)
             \<and> (type_of t = TTest \<longrightarrow>
                  mode (base r) =
                    (case namePattern of None \<Rightarrow> Run
                     | Some p \<Rightarrow> if p (getTaskFullName (name (base t) # suites))
                                 then Run else Skip))
             \<and> (type_of t = TSuite \<longrightarrow>
                  mode (base r) =
                    (if tasks r \<noteq> [] \<and> list_all (\<lambda>c. mode (base c) \<noteq> Run) (tasks r)
                     then Skip else Run)))"
proof -
  let ?t = "ts ! i"
  let ?sio = "parentIsOnly \<or> mode b = Only"
  let ?r = "interpretChild suites namePattern True ?sio allowOnly ?t"
  have r: "tasks (interpretTaskModes suites (Suite b ts) namePattern True
                    parentIsOnly allowOnly) ! i = ?r"
    using assms(1) by (simp add: tasks_interpretTaskModes)
  have m: "mode (base (only_step True (?sio \<or> mode (base ?t) = Only) allowOnly ?t)) = Run"
    using assms(2) by (rule only_step_Only)
  have res: "result (base (only_step True (?sio \<or> mode (base ?t) = Only) allowOnly ?t)) =
       (if allowOnly then result (base ?t) else Some \<lparr>state = Fail, errors = [only_error]\<rparr>)"
    using assms(2) by (rule only_step_Only_result)
  have res_r: "result (base ?r) =
       (if allowOnly then result (base ?t) else Some \<lparr>state = Fail, errors = [only_error]\<rparr>)"
    using res by (simp add: result_interpretChild)
  have err: "only_error = ProcessedError
      ''[Vitest] Unexpected .only modifier. Remove it or pass --allowOnly argument to bypass this error''"
    by (simp add: only_error_def)
  have md: "mode (base ?r) =
     (case type_of ?t of
        TTest \<Rightarrow> (case namePattern of None \<Rightarrow> Run
                   | Some p \<Rightarrow> if p (getTaskFullName (name (base ?t) # suites)) then Run else Skip)
      | TCustom \<Rightarrow> Run
      | TSuite \<Rightarrow>
          (let ts' = tasks ?r
           in if ts' \<noteq> [] \<and> list_all (\<lambda>c. mode (base c) \<noteq> Run) ts' then Skip else Run))"
    using assms(2) by (rule mode_interpretChild_Only)
  show ?thesis
    unfolding Let_def r
    using m res res_r err md by (cases allowOnly) (simp_all add: Let_def)
qed

theorem allow_only_gate_witness:
  "1 < length (tasks only_pair) \<and> mode (base (tasks only_pair ! 1)) = Only
   \<and> tasks (interpretTaskModes [] only_pair None True False False) ! 1
       = Test \<lparr>task_id = [], name = ''t2'', mode = Run,
               result = Some \<lparr>state = Fail, errors = [only_error]\<rparr>\<rparr>
   \<and> tasks (interpretTaskModes [] only_pair None True False True) ! 1
       = Test \<lparr>task_id = [], name = ''t2'', mode = Run, result = None\<rparr>"
proof -
  let ?ts = "[Test (new_task ''t1'' Run), Test (new_task ''t2'' Only)]"
  have len: "1 < length ?ts" by simp
  have only: "mode (base (?ts ! 1)) = Only" by (simp add: new_task_def)
  note off = allow_only_gate [OF len only, of False "new_task ''f.test.ts'' Run" False "[]" None]
  note on = allow_only_gate [OF len only, of False "new_task ''f.test.ts'' Run" True "[]" None]
  have "tasks (interpretTaskModes [] only_pair None True False False) ! 1
       = Test \<lparr>task_id = [], name = ''t2'', mode = Run,
               result = Some \<lparr>state = Fail, errors = [only_error]\<rparr>\<rparr>"
    by (simp add: only_pair_def tasks_interpretTaskModes interpretChild_def only_step_def
        name_step_def new_task_def checkAllowOnly_def set_result_def set_mode_def)
  moreover have "tasks (interpretTaskModes [] only_pair None True False True) ! 1
       = Test \<lparr>task_id = [], name = ''t2'', mode = Run, result = None\<rparr>"
    by (simp add: only_pair_def tasks_interpretTaskModes interpretChild_def only_step_def
        name_step_def new_task_def checkAllowOnly_def set_result_def set_mode_def)
  ultimately show ?thesis
    using off on len only by (simp add: only_pair_def)
qed

subsection \<open>calculateSuiteHash\<close>

lemma digit_val: "d < 10 \<Longrightarrow> (of_char (''0123456789'' ! d) :: nat) = 48 + d"
proof -
  assume "d < 10"
  then have "d \<in> {0, 1, 2, 3, 4, 5, 6, 7, 8, 9}" by auto
  then show ?thesis by auto
qed

lemma undec_append: "undec (s @ [c]) = 10 * undec s + (of_char c - 48)"
  by (simp add: undec_def)

lemma undec_dec_nat: "undec (dec_nat n) = n"
proof (induction n rule: dec_nat.induct)
  case (1 n)
  show ?case
  proof (cases "n < 10")
    case True
    then show ?thesis by (subst dec_nat.simps) (simp add: undec_def digit_val)
  next
    case False
    then have "undec (dec_nat n) = 10 * undec (dec_nat (n div 10)) + n mod 10"
      by (subst dec_nat.simps) (simp add: undec_append digit_val)
    with False 1 show ?thesis by simp
  qed
qed

lemma dec_nat_inj: "dec_nat m = dec_nat n \<Longrightarrow> m = n"
  by (metis undec_dec_nat)

lemma calculateSuiteHash_Suite:
  "calculateSuiteHash (Suite b ts) = Suite b (map (\<lambda>(idx, t). hash_child b idx t) (enumerate 0 ts))"
  by (simp only: calculateSuiteHash.simps hash_child_def [abs_def] Let_def)

declare calculateSuiteHash.simps(1) [simp del]

lemma length_tasks_calculateSuiteHash [simp]:
  "length (tasks (calculateSuiteHash t)) = length (tasks t)"
  by (cases t) (simp_all add: calculateSuiteHash_Suite)

lemma nth_tasks_calculateSuiteHash:
  "i < length ts \<Longrightarrow> tasks (calculateSuiteHash (Suite b ts)) ! i = hash_child b i (ts ! i)"
  by (simp add: calculateSuiteHash_Suite nth_enumerate_eq)

lemma base_calculateSuiteHash [simp]: "base (calculateSuiteHash t) = base t"
  by (cases t) (simp_all add: calculateSuiteHash_Suite)

lemma type_of_calculateSuiteHash [simp]: "type_of (calculateSuiteHash t) = type_of t"
  by (cases t) (simp_all add: calculateSuiteHash_Suite)

lemma type_of_set_id [simp]: "type_of (set_id i t) = type_of t"
  by (simp add: set_id_def)

lemma tasks_set_id [simp]: "tasks (set_id i t) = tasks t"
  by (simp add: set_id_def)

lemma base_set_id: "base (set_id i t) = (base t)\<lparr>task_id := i\<rparr>"
  by (simp add: set_id_def)

lemma set_id_same: "task_id (base t) = i \<Longrightarrow> set_id i t = t"
  by (cases t) (auto simp: set_id_def)

lemma set_id_set_id [simp]: "set_id i (set_id j t) = set_id i t"
  by (cases t) (simp_all add: set_id_def)

lemma base_hash_child:
  "base (hash_child b i t) = (base t)\<lparr>task_id := task_id b @ ''_'' @ dec_nat i\<rparr>"
  by (simp add: hash_child_def Let_def base_set_id)

lemma type_of_hash_child [simp]: "type_of (hash_child b i t) = type_of t"
  by (simp add: hash_child_def Let_def)

lemma task_at_leaf: "tasks t = [] \<Longrightarrow> task_at t p = Some x \<Longrightarrow> p = [] \<and> x = t"
  by (cases p) simp_all

lemma task_at_set_id:
  "task_at (set_id n t) p = (if p = [] then Some (set_id n t) else task_at t p)"
  by (cases p) simp_all

lemma path_id_Cons: "path_id root (i # p) = path_id (root @ ''_'' @ dec_nat i) p"
  by (simp add: path_id_def)

lemma path_id_snoc: "path_id root (q @ [i]) = path_id root q @ ''_'' @ dec_nat i"
  by (simp add: path_id_def)

lemma task_at_calculateSuiteHash:
  "task_at t p = Some x \<Longrightarrow>
     \<exists>y. task_at (calculateSuiteHash t) p = Some y
        \<and> base y = (base x)\<lparr>task_id := path_id (task_id (base t)) p\<rparr>
        \<and> type_of y = type_of x"
proof (induction p arbitrary: t x)
  case Nil
  then show ?case by (simp add: path_id_def)
next
  case (Cons i p)
  then obtain b ts where t: "t = Suite b ts"
    by (cases t) simp_all
  with Cons.prems have i: "i < length ts" and x: "task_at (ts ! i) p = Some x"
    by (simp_all split: if_splits)
  let ?n = "task_id b @ ''_'' @ dec_nat i"
  let ?c = "set_id ?n (ts ! i)"
  show ?case
  proof (cases "type_of (ts ! i) = TSuite")
    case True
    show ?thesis
    proof (cases "p = []")
      case True
      with x i t \<open>type_of (ts ! i) = TSuite\<close> show ?thesis
        by (simp add: nth_tasks_calculateSuiteHash base_hash_child path_id_def)
    next
      case False
      with x have "task_at ?c p = Some x"
        by (simp add: task_at_set_id)
      from Cons.IH [OF this] obtain y where
        "task_at (calculateSuiteHash ?c) p = Some y"
        "base y = (base x)\<lparr>task_id := path_id ?n p\<rparr>" "type_of y = type_of x"
        by (auto simp: base_set_id)
      with i t True show ?thesis
        by (simp add: nth_tasks_calculateSuiteHash hash_child_def path_id_Cons)
    qed
  next
    case False
    then have "tasks (ts ! i) = []"
      by (cases "ts ! i") simp_all
    with x have "p = []" "x = ts ! i"
      using task_at_leaf by blast+
    with i t False show ?thesis
      by (simp add: nth_tasks_calculateSuiteHash base_hash_child path_id_def)
  qed
qed

lemma task_at_prefix:
  "task_at t (q @ r) = Some x \<Longrightarrow> \<exists>parent. task_at t q = Some parent \<and> task_at parent r = Some x"
  by (induction q arbitrary: t) (auto split: if_splits)

lemma calculateSuiteHash_idem: 
  "calculateSuiteHash (calculateSuiteHash t) = calculateSuiteHash t"
proof (induction t rule: calculateSuiteHash.induct)
  case (1 b ts)
  have "hash_child b i (hash_child b i (ts ! i)) = hash_child b i (ts ! i)" if "i < length ts" for i
  proof (cases "type_of (ts ! i) = TSuite")
    case True
    let ?c = "set_id (task_id b @ ''_'' @ dec_nat i) (ts ! i)"
    have "(i, ts ! i) \<in> set (enumerate 0 ts)"
      using that by (simp add: in_set_enumerate_eq)
    from 1 [OF this refl] True
    have "calculateSuiteHash (calculateSuiteHash ?c) = calculateSuiteHash ?c"
      by simp
    moreover have "set_id (task_id b @ ''_'' @ dec_nat i) (calculateSuiteHash ?c) = calculateSuiteHash ?c"
      by (rule set_id_same) (simp add: base_set_id)
    ultimately show ?thesis using True
      by (simp add: hash_child_def Let_def)
  next
    case False
    then show ?thesis by (simp add: hash_child_def Let_def)
  qed
  then show ?case
    by (simp add: calculateSuiteHash_Suite list_eq_iff_nth_eq nth_enumerate_eq)
qed simp_all

lemma task_id_calculateSuiteHash_at:
  assumes "task_at (calculateSuiteHash t) p = Some y"
  shows "task_id (base y) = path_id (task_id (base t)) p"
proof -
  from task_at_calculateSuiteHash [OF assms] obtain y' where
    "task_at (calculateSuiteHash (calculateSuiteHash t)) p = Some y'"
    "base y' = (base y)\<lparr>task_id := path_id (task_id (base (calculateSuiteHash t))) p\<rparr>"
    by blast
  with assms have "base y = (base y)\<lparr>task_id := path_id (task_id (base t)) p\<rparr>"
    by (simp add: calculateSuiteHash_idem)
  then have "task_id (base y) = task_id ((base y)\<lparr>task_id := path_id (task_id (base t)) p\<rparr>)"
    by (rule arg_cong)
  then show ?thesis by simp
qed

lemma hash_child_ids_differ:
  "i \<noteq> j \<Longrightarrow> task_id (base (hash_child b j t)) \<noteq> task_id (base (hash_child b i t'))"
  by (auto simp: base_hash_child dest: dec_nat_inj)

text \<open>
  C6. \<open>calculateSuiteHash\<close> gives every descendant the id of its parent (as just assigned),
  an underscore and its index among its siblings, and changes nothing else of a task. The
  id of a node is therefore a function of the root's id and the node's position alone:
  a second invocation changes nothing, two trees with the same root id carry equal ids at
  equal positions, and a task moved to another index by a swap of two siblings gets
  another id.
\<close>

theorem calculateSuiteHash_ids:
  "(task_at t (q @ [i]) = Some x \<longrightarrow>
      (\<exists>parent y. task_at (calculateSuiteHash t) q = Some parent
         \<and> task_at (calculateSuiteHash t) (q @ [i]) = Some y
         \<and> task_id (base y) = task_id (base parent) @ ''_'' @ dec_nat i
         \<and> name (base y) = name (base x) \<and> mode (base y) = mode (base x)
         \<and> result (base y) = result (base x) \<and> type_of y = type_of x))
   \<and> calculateSuiteHash (calculateSuiteHash t) = calculateSuiteHash t
   \<and> (task_at (calculateSuiteHash t) p = Some y \<longrightarrow>
        task_id (base y) = path_id (task_id (base t)) p)
   \<and> (task_id (base t) = task_id (base t')
        \<and> task_at (calculateSuiteHash t) p = Some y
        \<and> task_at (calculateSuiteHash t') p = Some y'
      \<longrightarrow> task_id (base y) = task_id (base y'))
   \<and> (k < length ts \<and> j < length ts \<and> k \<noteq> j \<longrightarrow>
        tasks (calculateSuiteHash (Suite b ts)) ! k = hash_child b k (ts ! k)
        \<and> tasks (calculateSuiteHash (Suite b ts)) ! j = hash_child b j (ts ! j)
        \<and> tasks (calculateSuiteHash (Suite b (ts[k := ts ! j, j := ts ! k]))) ! j
            = hash_child b j (ts ! k)
        \<and> tasks (calculateSuiteHash (Suite b (ts[k := ts ! j, j := ts ! k]))) ! k
            = hash_child b k (ts ! j)
        \<and> task_id (base (hash_child b j (ts ! k))) \<noteq> task_id (base (hash_child b k (ts ! k)))
        \<and> task_id (base (hash_child b k (ts ! j))) \<noteq> task_id (base (hash_child b j (ts ! j))))"
proof -
  have parent_child: "\<exists>parent y. task_at (calculateSuiteHash t) q = Some parent
         \<and> task_at (calculateSuiteHash t) (q @ [i]) = Some y
         \<and> task_id (base y) = task_id (base parent) @ ''_'' @ dec_nat i
         \<and> name (base y) = name (base x) \<and> mode (base y) = mode (base x)
         \<and> result (base y) = result (base x) \<and> type_of y = type_of x"
    if x: "task_at t (q @ [i]) = Some x"
  proof -
    from task_at_calculateSuiteHash [OF x] obtain y where
      y: "task_at (calculateSuiteHash t) (q @ [i]) = Some y"
      and base_y: "base y = (base x)\<lparr>task_id := path_id (task_id (base t)) (q @ [i])\<rparr>"
      and ty: "type_of y = type_of x"
      by blast
    from task_at_prefix [OF y] obtain parent where
      parent: "task_at (calculateSuiteHash t) q = Some parent"
      by blast
    have "task_id (base parent) = path_id (task_id (base t)) q"
      using parent by (rule task_id_calculateSuiteHash_at)
    with base_y have "task_id (base y) = task_id (base parent) @ ''_'' @ dec_nat i"
      by (simp add: path_id_snoc)
    with y parent base_y ty show ?thesis
      by simp
  qed
  have swap: "tasks (calculateSuiteHash (Suite b ts)) ! k = hash_child b k (ts ! k)
        \<and> tasks (calculateSuiteHash (Suite b ts)) ! j = hash_child b j (ts ! j)
        \<and> tasks (calculateSuiteHash (Suite b (ts[k := ts ! j, j := ts ! k]))) ! j
            = hash_child b j (ts ! k)
        \<and> tasks (calculateSuiteHash (Suite b (ts[k := ts ! j, j := ts ! k]))) ! k
            = hash_child b k (ts ! j)
        \<and> task_id (base (hash_child b j (ts ! k))) \<noteq> task_id (base (hash_child b k (ts ! k)))
        \<and> task_id (base (hash_child b k (ts ! j))) \<noteq> task_id (base (hash_child b j (ts ! j)))"
    if "k < length ts" "j < length ts" "k \<noteq> j"
    using that by (simp add: nth_tasks_calculateSuiteHash hash_child_ids_differ)
  have two: "task_id (base y) = task_id (base y')"
    if "task_id (base t) = task_id (base t')"
      and "task_at (calculateSuiteHash t) p = Some y"
      and "task_at (calculateSuiteHash t') p = Some y'"
    using that task_id_calculateSuiteHash_at [of t p y] task_id_calculateSuiteHash_at [of t' p y']
    by simp
  have idem: "calculateSuiteHash (calculateSuiteHash t) = calculateSuiteHash t"
    by (rule calculateSuiteHash_idem)
  have closed: "task_id (base y) = path_id (task_id (base t)) p"
    if "task_at (calculateSuiteHash t) p = Some y"
    using that by (rule task_id_calculateSuiteHash_at)
  from parent_child idem closed two swap show ?thesis
    by blast
qed

lemma calculateSuiteHash_hashed_abc:
  "calculateSuiteHash hashed_abc =
     Suite (new_task ''f'' Run)
       [Test \<lparr>task_id = ''_0'', name = ''a'', mode = Run, result = None\<rparr>,
        Suite \<lparr>task_id = ''_1'', name = ''s'', mode = Run, result = None\<rparr>
          [Test \<lparr>task_id = ''_1_0'', name = ''b'', mode = Run, result = None\<rparr>,
           Test \<lparr>task_id = ''_1_1'', name = ''c'', mode = Run, result = None\<rparr>]]"
  by (simp add: hashed_abc_def calculateSuiteHash_Suite hash_child_def new_task_def
      set_id_def dec_nat.simps enumerate_eq_zip upt_rec)

theorem calculateSuiteHash_ids_witness:
  "task_at hashed_abc ([1] @ [0]) = Some (Test (new_task ''b'' Run))
   \<and> task_at (calculateSuiteHash hashed_abc) [1, 0]
       = Some (Test \<lparr>task_id = ''_1_0'', name = ''b'', mode = Run, result = None\<rparr>)
   \<and> (\<exists>parent y. task_at (calculateSuiteHash hashed_abc) [1] = Some parent
         \<and> task_at (calculateSuiteHash hashed_abc) ([1] @ [0]) = Some y
         \<and> task_id (base y) = task_id (base parent) @ ''_'' @ dec_nat 0)
   \<and> (0::nat) < length (tasks hashed_abc) \<and> (1::nat) < length (tasks hashed_abc)
   \<and> task_id (base (hash_child (new_task ''f'' Run) 1 (tasks hashed_abc ! 0))) = ''_1''
   \<and> task_id (base (hash_child (new_task ''f'' Run) 0 (tasks hashed_abc ! 0))) = ''_0''"
proof -
  have at: "task_at hashed_abc ([1] @ [0]) = Some (Test (new_task ''b'' Run))"
    by (simp add: hashed_abc_def)
  have at': "task_at (calculateSuiteHash hashed_abc) [1, 0]
       = Some (Test \<lparr>task_id = ''_1_0'', name = ''b'', mode = Run, result = None\<rparr>)"
    by (simp add: calculateSuiteHash_hashed_abc)
  have ids: "task_id (base (hash_child (new_task ''f'' Run) 1 (tasks hashed_abc ! 0))) = ''_1''"
    "task_id (base (hash_child (new_task ''f'' Run) 0 (tasks hashed_abc ! 0))) = ''_0''"
    by (simp_all add: base_hash_child new_task_def dec_nat.simps)
  from calculateSuiteHash_ids [of hashed_abc "[1]" 0 "Test (new_task ''b'' Run)"] at
  have "\<exists>parent y. task_at (calculateSuiteHash hashed_abc) [1] = Some parent
         \<and> task_at (calculateSuiteHash hashed_abc) ([1] @ [0]) = Some y
         \<and> task_id (base y) = task_id (base parent) @ ''_'' @ dec_nat 0"
    by blast
  with at at' ids show ?thesis
    by (simp add: hashed_abc_def)
qed

subsection \<open>The rerun timer\<close>

lemma filter_watched: "Set.filter (\<lambda>test. test \<in> W) C = C \<inter> W"
  by auto

text \<open>
  C9, as the code has it. When a watch-tests restriction is active and the timer fires, the
  pending changed-tests set is first cut down to the watched tests; if nothing is left, no
  run is started, the changed-tests set is left empty and the pending invalidation set is
  cleared. Nothing else of the state changes.
\<close>

theorem rerunTimer_clears_invalidates:
  assumes "watchedTests st \<noteq> {}" and "changedTests st \<inter> watchedTests st = {}"
  shows "rerunTimer currentCount filteredFiles st =
           (st\<lparr>changedTests := {}, invalidates := {}\<rparr>, None)"
proof -
  have none_left: "Set.filter (\<lambda>test. test \<in> watchedTests st) (changedTests st) = {}"
    using assms(2) by auto
  have "rerunTimer currentCount filteredFiles st =
          ((st\<lparr>changedTests := {}\<rparr>)\<lparr>invalidates := {}\<rparr>, None)"
    unfolding rerunTimer_def Let_def none_left using assms(1) by simp
  then show ?thesis by simp
qed

text \<open>
  The invalidation set is not preserved in that case: with \<open>a.test.ts\<close> watched,
  \<open>b.test.ts\<close> changed and \<open>src/util.ts\<close> invalidated, the timer starts no run and leaves
  the invalidation set empty.
\<close>

theorem rerunTimer_preserves_invalidates_counterexample:
  "watchedTests watching_a \<noteq> {}
   \<and> changedTests watching_a \<inter> watchedTests watching_a = {}
   \<and> snd (rerunTimer 0 None watching_a) = None
   \<and> invalidates (fst (rerunTimer 0 None watching_a)) \<noteq> invalidates watching_a"
  by (simp add: rerunTimer_def watching_a_def filter_watched)

theorem rerunTimer_clears_invalidates_witness:
  "watchedTests watching_a \<noteq> {}
   \<and> changedTests watching_a \<inter> watchedTests watching_a = {}
   \<and> rerunTimer 0 None watching_a = (watching_a\<lparr>changedTests := {}, invalidates := {}\<rparr>, None)"
proof -
  have w: "watchedTests watching_a \<noteq> {}" by (simp add: watching_a_def)
  have c: "changedTests watching_a \<inter> watchedTests watching_a = {}" by (simp add: watching_a_def)
  from rerunTimer_clears_invalidates [OF w c, of 0 None] w c show ?thesis by simp
qed

subsection \<open>collectTests\<close>

lemma collectTests_loop_map:
  "collectTests_loop r cfg files paths = files @ map (collectFile r cfg) paths"
  by (induction paths arbitrary: files) simp_all

lemma collectTests_map: "collectTests paths r cfg = map (collectFile r cfg) paths"
  by (simp add: collectTests_def collectTests_loop_map)

lemma base_suite_createFileTask:
  "result (base (suite (createFileTask rel fp rt pn pl))) = None"
  "mode (base (suite (createFileTask rel fp rt pn pl))) = Run"
  by (simp_all add: createFileTask_def Let_def)

lemma base_try_collect:
  "base (suite (fst (try_collect r cfg file0))) = base (suite file0)"
  by (simp add: try_collect_def Let_def split: option.splits sum.splits prod.splits)

lemma result_set_result [simp]: "result (base (set_result r t)) = r"
  by (simp add: set_result_def)

lemma mode_set_result [simp]: "mode (base (set_result r t)) = mode (base t)"
  by (simp add: set_result_def)

lemma tasks_set_result [simp]: "tasks (set_result r t) = tasks t"
  by (simp add: set_result_def)

lemma type_of_set_result [simp]: "type_of (set_result r t) = type_of t"
  by (simp add: set_result_def)

lemma type_of_interpretTaskModes [simp]:
  "type_of (interpretTaskModes suites t np om pio ao) = type_of t"
  by (cases t) (simp_all add: interpretTaskModes_Suite collapse_def)

lemma length_tasks_interpretTaskModes [simp]:
  "length (tasks (interpretTaskModes suites t np om pio ao)) = length (tasks t)"
  by (cases t) (simp_all add: interpretTaskModes_Suite)

lemma type_of_suite_try_collect:
  "type_of (suite file0) = TSuite \<Longrightarrow> type_of (suite (fst (try_collect r cfg file0))) = TSuite"
  by (simp add: try_collect_def Let_def split: option.splits sum.splits prod.splits)

lemma filepath_try_collect: "filepath (fst (try_collect r cfg file0)) = filepath file0"
  by (simp add: try_collect_def Let_def split: option.splits sum.splits prod.splits)

lemma suite_collectFile:
  "suite (collectFile r cfg p) =
     (let file0 = createFileTask (relative r) p (config_root cfg) (config_name cfg) (runner_pool r);
          s1 = suite (fst (try_collect r cfg file0));
          s2 = (case thrown_in r cfg p of
                  None \<Rightarrow> s1
                | Some e \<Rightarrow> set_result (Some \<lparr>state = Fail, errors = [processError e]\<rparr>) s1);
          s3 = calculateSuiteHash s2
      in interpretTaskModes [] s3 (config_testNamePattern cfg) (someTasksAreOnly s3) False (config_allowOnly cfg))"
  by (simp add: collectFile_def thrown_in_def Let_def split: prod.splits option.splits)

lemma filepath_collectFile: "filepath (collectFile r cfg p) = p"
proof -
  have "filepath (fst (try_collect r cfg
          (createFileTask (relative r) p (config_root cfg) (config_name cfg) (runner_pool r)))) = p"
    by (simp add: filepath_try_collect) (simp add: createFileTask_def Let_def)
  then show ?thesis
    by (auto simp add: collectFile_def Let_def split: prod.splits option.splits)
qed

lemma result_collectFile:
  "result (base (suite (collectFile r cfg p))) =
     (case thrown_in r cfg p of
        None \<Rightarrow> None
      | Some e \<Rightarrow> Some \<lparr>state = Fail, errors = [processError e]\<rparr>)"
  by (simp add: suite_collectFile Let_def base_try_collect base_suite_createFileTask
      split: option.splits)

lemma type_of_suite_collectFile: "type_of (suite (collectFile r cfg p)) = TSuite"
proof -
  have "type_of (suite (createFileTask (relative r) p (config_root cfg) (config_name cfg) (runner_pool r)))
        = TSuite"
    by (simp add: createFileTask_def Let_def)
  then show ?thesis
    by (simp add: suite_collectFile Let_def type_of_suite_try_collect split: option.splits)
qed

lemma length_tasks_collectFile:
  "length (tasks (suite (collectFile r cfg p))) = length (registered_tasks r cfg p)"
  by (simp add: suite_collectFile Let_def registered_tasks_def split: option.splits)

lemma mode_collectFile:
  "mode (base (suite (collectFile r cfg p))) =
     (if tasks (suite (collectFile r cfg p)) \<noteq> []
         \<and> list_all (\<lambda>t. mode (base t) \<noteq> Run) (tasks (suite (collectFile r cfg p)))
      then Skip else Run)"
proof -
  let ?file0 = "createFileTask (relative r) p (config_root cfg) (config_name cfg) (runner_pool r)"
  let ?s1 = "suite (fst (try_collect r cfg ?file0))"
  let ?s2 = "case thrown_in r cfg p of
                  None \<Rightarrow> ?s1
                | Some e \<Rightarrow> set_result (Some \<lparr>state = Fail, errors = [processError e]\<rparr>) ?s1"
  let ?s3 = "calculateSuiteHash ?s2"
  have ty: "type_of ?s3 = TSuite"
    by (simp add: type_of_suite_try_collect createFileTask_def Let_def split: option.splits)
  have md: "mode (base ?s3) = Run"
    by (simp add: base_try_collect base_suite_createFileTask split: option.splits)
  have eq: "suite (collectFile r cfg p) =
      interpretTaskModes [] ?s3 (config_testNamePattern cfg) (someTasksAreOnly ?s3) False (config_allowOnly cfg)"
    by (simp add: suite_collectFile Let_def)
  show ?thesis
    unfolding eq using mode_interpretTaskModes [OF ty] md
    by (simp add: Let_def)
qed

text \<open>
  C3. \<open>collectTests\<close> returns one file per path, in order, and each file is what collecting
  its path alone gives, whatever happens to the other files of the batch. When an
  exception is thrown while a file is collected (by the setup files, by the import or by
  the registration code), the result of that file is state \<open>fail\<close> with the processed
  exception as its only error. A file that collects without an exception has no result
  attached, holds all the tasks that were registered, hashed and interpreted, and is in
  mode \<open>run\<close> unless it has tasks and none of them ends in mode \<open>run\<close>.
\<close>

theorem collectTests_isolation:
  "length (collectTests paths r cfg) = length paths
   \<and> (i < length paths \<longrightarrow>
        collectTests paths r cfg ! i = collectFile r cfg (paths ! i)
        \<and> filepath (collectTests paths r cfg ! i) = paths ! i
        \<and> type_of (suite (collectTests paths r cfg ! i)) = TSuite
        \<and> length (tasks (suite (collectTests paths r cfg ! i)))
            = length (registered_tasks r cfg (paths ! i))
        \<and> (thrown_in r cfg (paths ! i) = Some e \<longrightarrow>
              result (base (suite (collectTests paths r cfg ! i)))
                = Some \<lparr>state = Fail, errors = [processError e]\<rparr>)
        \<and> (thrown_in r cfg (paths ! i) = None \<longrightarrow>
              result (base (suite (collectTests paths r cfg ! i))) = None)
        \<and> mode (base (suite (collectTests paths r cfg ! i)))
            = (if tasks (suite (collectTests paths r cfg ! i)) \<noteq> []
                  \<and> list_all (\<lambda>t. mode (base t) \<noteq> Run)
                       (tasks (suite (collectTests paths r cfg ! i)))
               then Skip else Run))"
proof -
  have len: "length (collectTests paths r cfg) = length paths"
    by (simp add: collectTests_map)
  have each: "collectTests paths r cfg ! i = collectFile r cfg (paths ! i)" if "i < length paths"
    using that by (simp add: collectTests_map)
  have failed: "result (base (suite (collectFile r cfg (paths ! i))))
                = Some \<lparr>state = Fail, errors = [processError e]\<rparr>"
    if "thrown_in r cfg (paths ! i) = Some e"
    using that by (simp add: result_collectFile)
  have valid: "result (base (suite (collectFile r cfg (paths ! i)))) = None"
    if "thrown_in r cfg (paths ! i) = None"
    using that by (simp add: result_collectFile)
  show ?thesis
    using len each failed valid
      filepath_collectFile [of r cfg "paths ! i"]
      type_of_suite_collectFile [of r cfg "paths ! i"]
      length_tasks_collectFile [of r cfg "paths ! i"]
      mode_collectFile [of r cfg "paths ! i"]
    by simp
qed

lemma thrown_in_two_files:
  "thrown_in two_files plain_config ''bad.test.ts'' = Some (Error ''boom'')"
  "thrown_in two_files plain_config ''good.test.ts'' = None"
  by (simp_all add: thrown_in_def try_collect_def two_files_def plain_config_def Let_def
      createFileTask_def)

lemma tasks_good_file:
  "map (\<lambda>t. (name (base t), mode (base t), result (base t)))
     (tasks (suite (collectFile two_files plain_config ''good.test.ts'')))
   = [(''works'', Run, None)]"
  by (simp add: suite_collectFile thrown_in_two_files Let_def)
     (simp add: try_collect_def two_files_def plain_config_def Let_def createFileTask_def
        calculateSuiteHash_Suite hash_child_def set_id_def new_task_def
        interpretTaskModes_Suite interpretChild_def only_step_def name_step_def)

theorem collectTests_isolation_witness:
  "(0::nat) < length [''bad.test.ts'', ''good.test.ts'']
   \<and> (1::nat) < length [''bad.test.ts'', ''good.test.ts'']
   \<and> thrown_in two_files plain_config ([''bad.test.ts'', ''good.test.ts''] ! 0)
       = Some (Error ''boom'')
   \<and> thrown_in two_files plain_config ([''bad.test.ts'', ''good.test.ts''] ! 1) = None
   \<and> length (collectTests [''bad.test.ts'', ''good.test.ts''] two_files plain_config) = 2
   \<and> result (base (suite (collectTests [''bad.test.ts'', ''good.test.ts''] two_files
                             plain_config ! 0)))
       = Some \<lparr>state = Fail, errors = [ProcessedError ''boom'']\<rparr>
   \<and> result (base (suite (collectTests [''bad.test.ts'', ''good.test.ts''] two_files
                             plain_config ! 1))) = None
   \<and> mode (base (suite (collectTests [''bad.test.ts'', ''good.test.ts''] two_files
                           plain_config ! 1))) = Run
   \<and> map (\<lambda>t. (name (base t), mode (base t), result (base t)))
        (tasks (suite (collectTests [''bad.test.ts'', ''good.test.ts''] two_files
                         plain_config ! 1)))
       = [(''works'', Run, None)]"
proof -
  let ?paths = "[''bad.test.ts'', ''good.test.ts'']"
  have i0: "(0::nat) < length ?paths" and i1: "(1::nat) < length ?paths"
    by simp_all
  have th0: "thrown_in two_files plain_config (?paths ! 0) = Some (Error ''boom'')"
    and th1: "thrown_in two_files plain_config (?paths ! 1) = None"
    by (simp_all add: thrown_in_two_files)
  note bad = collectTests_isolation [of ?paths two_files plain_config 0 "Error ''boom''"]
  note good = collectTests_isolation [of ?paths two_files plain_config 1 "Error ''boom''"]
  have len: "length (collectTests ?paths two_files plain_config) = 2"
    using bad by auto
  have r0: "result (base (suite (collectTests ?paths two_files plain_config ! 0)))
       = Some \<lparr>state = Fail, errors = [ProcessedError ''boom'']\<rparr>"
    using bad i0 th0 by auto
  have e1: "collectTests ?paths two_files plain_config ! 1
            = collectFile two_files plain_config ''good.test.ts''"
    using good i1 by auto
  have r1: "result (base (suite (collectTests ?paths two_files plain_config ! 1))) = None"
    using good i1 th1 by blast
  have ts1: "map (\<lambda>t. (name (base t), mode (base t), result (base t)))
        (tasks (suite (collectTests ?paths two_files plain_config ! 1)))
       = [(''works'', Run, None)]"
    unfolding e1 by (rule tasks_good_file)
  then obtain t where t: "tasks (suite (collectTests ?paths two_files plain_config ! 1)) = [t]"
    and "mode (base t) = Run"
    by auto
  then have keeps: "\<not> (tasks (suite (collectTests ?paths two_files plain_config ! 1)) \<noteq> []
                  \<and> list_all (\<lambda>t. mode (base t) \<noteq> Run)
                       (tasks (suite (collectTests ?paths two_files plain_config ! 1))))"
    by simp
  have "mode (base (suite (collectTests ?paths two_files plain_config ! 1)))
          = (if tasks (suite (collectTests ?paths two_files plain_config ! 1)) \<noteq> []
                  \<and> list_all (\<lambda>t. mode (base t) \<noteq> Run)
                       (tasks (suite (collectTests ?paths two_files plain_config ! 1)))
             then Skip else Run)"
    using good i1 by blast
  then have m1: "mode (base (suite (collectTests ?paths two_files plain_config ! 1))) = Run"
    by (simp only: keeps if_False)
  from i0 i1 th0 th1 len r0 r1 m1 ts1 show ?thesis
    by blast
qed

subsection \<open>handleFileChanged\<close>

lemma grows_refl [simp]: "grows st st"
  by (simp add: grows_def)

lemma grows_trans: "grows a b \<Longrightarrow> grows b c \<Longrightarrow> grows a c"
  by (auto simp: grows_def)

lemma visit_importers_returns:
  assumes "returns_above recur I"
  shows "I \<subseteq> invalidates st \<Longrightarrow>
     \<exists>st' rerun'. visit_importers recur is (st, rerun) = Some (st', rerun')
        \<and> grows st st' \<and> (log_inv {} st \<longrightarrow> log_inv {} st')"
proof (induction "is" arbitrary: st rerun)
  case Nil
  then show ?case by simp
next
  case (Cons i rest)
  show ?case
  proof (cases i)
    case None
    with Cons show ?thesis by simp
  next
    case (Some g)
    show ?thesis
    proof (cases "g = []")
      case True
      with Some Cons show ?thesis by simp
    next
      case False
      from assms Cons.prems obtain s1 r where
        call: "recur st g = Some (s1, r)" and g1: "grows st s1"
        and l1: "log_inv {} st \<longrightarrow> log_inv {} s1"
        unfolding returns_above_def by blast
      from g1 Cons.prems have "I \<subseteq> invalidates s1"
        by (auto simp: grows_def)
      from Cons.IH [OF this, of "if length r \<noteq> 0 then True else rerun"] obtain st' rerun' where
        rest: "visit_importers recur rest (s1, if length r \<noteq> 0 then True else rerun)
                 = Some (st', rerun')"
        and g2: "grows s1 st'" and l2: "log_inv {} s1 \<longrightarrow> log_inv {} st'"
        by blast
      from call rest Some False
      have "visit_importers recur (i # rest) (st, rerun) = Some (st', rerun')"
        by simp
      with g1 g2 l1 l2 show ?thesis
        by (blast intro: grows_trans)
    qed
  qed
qed

lemma visit_mods_returns:
  assumes "returns_above recur I"
  shows "I \<subseteq> invalidates st \<Longrightarrow>
     \<exists>st' rerun'. visit_mods recur ms (st, rerun) = Some (st', rerun')
        \<and> grows st st' \<and> (log_inv {} st \<longrightarrow> log_inv {} st')"
proof (induction ms arbitrary: st rerun)
  case Nil
  then show ?case by simp
next
  case (Cons m ms)
  from visit_importers_returns [OF assms Cons.prems, of "importers m" rerun] obtain s1 r1 where
    first: "visit_importers recur (importers m) (st, rerun) = Some (s1, r1)"
    and g1: "grows st s1" and l1: "log_inv {} st \<longrightarrow> log_inv {} s1"
    by blast
  from g1 Cons.prems have "I \<subseteq> invalidates s1"
    by (auto simp: grows_def)
  from Cons.IH [OF this, of r1] obtain st' rerun' where
    rest: "visit_mods recur ms (s1, r1) = Some (st', rerun')"
    and g2: "grows s1 st'" and l2: "log_inv {} s1 \<longrightarrow> log_inv {} st'"
    by blast
  from first rest have "visit_mods recur (m # ms) (st, rerun) = Some (st', rerun')"
    by simp
  with g1 g2 l1 l2 show ?case
    by (blast intro: grows_trans)
qed

lemma log_inv_invalidate:
  "log_inv {file} st \<Longrightarrow> log_inv {} (st\<lparr>invalidates := insert file (invalidates st)\<rparr>)"
  by (auto simp: log_inv_def)

lemma log_inv_weaken: "log_inv {} st \<Longrightarrow> log_inv X st"
  by (auto simp: log_inv_def)

lemma log_inv_changed [simp]: "log_inv X (st\<lparr>changedTests := c\<rparr>) = log_inv X st"
  by (simp add: log_inv_def)

lemma visit_projects_returns:
  assumes "returns_above recur (insert file I)"
  shows "I \<subseteq> invalidates st \<Longrightarrow>
     \<exists>st' files'. visit_projects recur env file ps (st, files) = Some (st', files')
        \<and> grows st st' \<and> (log_inv {file} st \<longrightarrow> log_inv {file} st')
        \<and> ((\<exists>p \<in> set ps. length (getModulesByFilepath p file) \<noteq> 0) \<longrightarrow> file \<in> invalidates st')"
proof (induction ps arbitrary: st files)
  case Nil
  then show ?case by simp
next
  case (Cons p ps)
  show ?case
  proof (cases "length (getModulesByFilepath p file) = 0")
    case True
    with Cons.IH [OF Cons.prems, of files] show ?thesis
      by simp
  next
    case False
    let ?st1 = "st\<lparr>invalidates := insert file (invalidates st)\<rparr>"
    have g1: "grows st ?st1"
      by (auto simp: grows_def)
    have i1: "insert file I \<subseteq> invalidates ?st1"
      using Cons.prems by auto
    have l1: "log_inv {file} st \<longrightarrow> log_inv {} ?st1"
      by (simp add: log_inv_invalidate)
    show ?thesis
    proof (cases "file \<in> filesMap env \<or> isTestFile p file")
      case True
      let ?st2 = "?st1\<lparr>changedTests := insert file (changedTests ?st1)\<rparr>"
      have i2: "I \<subseteq> invalidates ?st2"
        using Cons.prems by auto
      from Cons.IH [OF i2, of "files @ [file]"] obtain st' files' where
        rest: "visit_projects recur env file ps (?st2, files @ [file]) = Some (st', files')"
        and g2: "grows ?st2 st'" and l2: "log_inv {file} ?st2 \<longrightarrow> log_inv {file} st'"
        by blast
      have "visit_projects recur env file (p # ps) (st, files) = Some (st', files')"
        using False True rest by (simp add: Let_def)
      moreover have "grows st st'"
        using g2 by (auto simp: grows_def)
      moreover have "log_inv {file} st \<longrightarrow> log_inv {file} st'"
        using l1 l2 by (auto intro: log_inv_weaken)
      moreover have "file \<in> invalidates st'"
        using g2 by (auto simp: grows_def)
      ultimately show ?thesis by blast
    next
      case notest: False
      from visit_mods_returns [OF assms i1, of "getModulesByFilepath p file" False]
      obtain st2 rerun where
        mods: "visit_mods recur (getModulesByFilepath p file) (?st1, False) = Some (st2, rerun)"
        and g2: "grows ?st1 st2" and l2: "log_inv {} ?st1 \<longrightarrow> log_inv {} st2"
        by blast
      have i2: "I \<subseteq> invalidates st2"
        using Cons.prems g2 by (auto simp: grows_def)
      from Cons.IH [OF i2, of "if rerun then files @ [file] else files"] obtain st' files' where
        rest: "visit_projects recur env file ps (st2, if rerun then files @ [file] else files)
                 = Some (st', files')"
        and g3: "grows st2 st'" and l3: "log_inv {file} st2 \<longrightarrow> log_inv {file} st'"
        by blast
      have "visit_projects recur env file (p # ps) (st, files) = Some (st', files')"
        using False notest mods rest by (simp add: Let_def)
      moreover have "grows st st'"
        using g1 g2 g3 by (blast intro: grows_trans)
      moreover have "log_inv {file} st \<longrightarrow> log_inv {file} st'"
        using l1 l2 l3 by (auto intro: log_inv_weaken)
      moreover have "file \<in> invalidates st'"
        using g2 g3 by (auto simp: grows_def)
      ultimately show ?thesis by blast
    qed
  qed
qed

lemma finite_graph_files [simp]: "finite (graph_files env)"
  by (simp add: graph_files_def)

lemma getModulesByFilepath_graph:
  "length (getModulesByFilepath p file) \<noteq> 0 \<Longrightarrow> file \<in> fst ` set (modules p)"
  by (auto simp: getModulesByFilepath_def split: option.splits dest: map_of_SomeD intro: rev_image_eqI)

lemma getModuleProjects_graph:
  assumes "length (getModuleProjects env file) \<noteq> 0"
  shows "file \<in> graph_files env"
    and "\<exists>p \<in> set (getModuleProjects env file). length (getModulesByFilepath p file) \<noteq> 0"
proof -
  from assms obtain p where p: "p \<in> set (getModuleProjects env file)"
    by (cases "getModuleProjects env file") auto
  then have "p \<in> set (projects env)" and m: "length (getModulesByFilepath p file) \<noteq> 0"
    by (simp_all add: getModuleProjects_def)
  then show "file \<in> graph_files env"
    using getModulesByFilepath_graph [OF m] by (auto simp: graph_files_def)
  from p m show "\<exists>p \<in> set (getModuleProjects env file). length (getModulesByFilepath p file) \<noteq> 0"
    by blast
qed

lemma card_after_invalidate:
  assumes "file \<in> graph_files env" and "file \<notin> invalidates st"
    and "card (graph_files env - invalidates st) < Suc n"
    and "insert file (invalidates st) \<subseteq> invalidates s"
  shows "card (graph_files env - invalidates s) < n"
proof -
  have "graph_files env - invalidates s \<subset> graph_files env - invalidates st"
    using assms(1,2,4) by auto
  then have "card (graph_files env - invalidates s) < card (graph_files env - invalidates st)"
    by (simp add: psubset_card_mono)
  with assms(3) show ?thesis by simp
qed

lemma handleFileChanged_returns:
  "card (graph_files env - invalidates st) < fuel \<Longrightarrow>
     \<exists>st' files. handleFileChanged fuel env st path = Some (st', files)
        \<and> grows st st' \<and> (log_inv {} st \<longrightarrow> log_inv {} st')
        \<and> (path \<notin> changedTests st \<and> path \<notin> invalidates st \<and> \<not> forceRerunTrigger env path
             \<and> length (getModuleProjects env path) \<noteq> 0
            \<longrightarrow> path \<in> invalidates st' \<and> path \<in> set (expanded st'))"
proof (induction fuel arbitrary: st path)
  case 0
  then show ?case by simp
next
  case (Suc n)
  show ?case
  proof (cases "path \<in> changedTests st \<or> path \<in> invalidates st")
    case True
    then show ?thesis by auto
  next
    case unmarked: False
    show ?thesis
    proof (cases "forceRerunTrigger env path")
      case True
      with unmarked show ?thesis by (auto simp: grows_def log_inv_def)
    next
      case noforce: False
      show ?thesis
      proof (cases "length (getModuleProjects env path) = 0")
        case True
        with unmarked noforce show ?thesis by (auto simp: grows_def log_inv_def)
      next
        case loaded: False
        let ?projs = "getModuleProjects env path"
        let ?st0 = "st\<lparr>expanded := expanded st @ [path]\<rparr>"
        from getModuleProjects_graph [OF loaded]
        have in_graph: "path \<in> graph_files env"
          and some_mods: "\<exists>p \<in> set ?projs. length (getModulesByFilepath p path) \<noteq> 0"
          by blast+
        have rec: "returns_above (handleFileChanged n env) (insert path (invalidates st))"
          unfolding returns_above_def
        proof (intro allI impI)
          fix s :: vitest_state and g :: string
          assume "insert path (invalidates st) \<subseteq> invalidates s"
          with in_graph unmarked Suc.prems
          have "card (graph_files env - invalidates s) < n"
            by (auto intro: card_after_invalidate)
          from Suc.IH [OF this, of g]
          show "\<exists>s' r. handleFileChanged n env s g = Some (s', r) \<and> grows s s'
                  \<and> (log_inv {} s \<longrightarrow> log_inv {} s')"
            by blast
        qed
        have "invalidates st \<subseteq> invalidates ?st0"
          by simp
        from visit_projects_returns [OF rec this, of env ?projs "[]"] some_mods
        obtain st' files where
          loop: "visit_projects (handleFileChanged n env) env path ?projs (?st0, []) = Some (st', files)"
          and g: "grows ?st0 st'" and l: "log_inv {path} ?st0 \<longrightarrow> log_inv {path} st'"
          and inv: "path \<in> invalidates st'"
          by blast
        have call: "handleFileChanged (Suc n) env st path = Some (st', remdups files)"
          using unmarked noforce loaded loop by (simp add: Let_def)
        have g': "grows st st'"
          using g by (simp add: grows_def)
        have l0: "log_inv {} st \<longrightarrow> log_inv {path} ?st0"
          using unmarked by (auto simp: log_inv_def)
        have l': "log_inv {} st \<longrightarrow> log_inv {} st'"
          using l0 l inv by (auto simp: log_inv_def)
        have "path \<in> set (expanded st')"
          using g by (auto simp: grows_def)
        with call g' l' inv show ?thesis
          by simp
      qed
    qed
  qed
qed

lemma visit_importers_mono:
  assumes "\<And>s g r. recur s g = Some r \<Longrightarrow> recur' s g = Some r"
  shows "visit_importers recur is acc = Some x \<Longrightarrow> visit_importers recur' is acc = Some x"
proof (induction "is" arbitrary: acc)
  case Nil
  then show ?case by simp
next
  case (Cons i rest)
  obtain st rerun where acc: "acc = (st, rerun)"
    by (cases acc)
  show ?case
  proof (cases i)
    case None
    with Cons show ?thesis by simp
  next
    case (Some g)
    show ?thesis
    proof (cases "g = []")
      case True
      with Cons Some acc show ?thesis by simp
    next
      case False
      with Cons.prems Some acc obtain s1 r where
        call: "recur st g = Some (s1, r)"
        and rest: "visit_importers recur rest (s1, if length r \<noteq> 0 then True else rerun) = Some x"
        by (auto split: option.splits)
      from assms [OF call] Cons.IH [OF rest] Some False acc show ?thesis
        by simp
    qed
  qed
qed

lemma visit_mods_mono:
  assumes "\<And>s g r. recur s g = Some r \<Longrightarrow> recur' s g = Some r"
  shows "visit_mods recur ms acc = Some x \<Longrightarrow> visit_mods recur' ms acc = Some x"
proof (induction ms arbitrary: acc)
  case Nil
  then show ?case by simp
next
  case (Cons m ms)
  from Cons.prems obtain acc' where
    first: "visit_importers recur (importers m) acc = Some acc'"
    and rest: "visit_mods recur ms acc' = Some x"
    by (auto split: option.splits)
  from visit_importers_mono [OF assms first] Cons.IH [OF rest] show ?case
    by simp
qed

lemma visit_projects_mono:
  assumes "\<And>s g r. recur s g = Some r \<Longrightarrow> recur' s g = Some r"
  shows "visit_projects recur env path ps acc = Some x \<Longrightarrow>
         visit_projects recur' env path ps acc = Some x"
proof (induction ps arbitrary: acc)
  case Nil
  then show ?case by simp
next
  case (Cons p ps)
  obtain st files where acc: "acc = (st, files)"
    by (cases acc)
  show ?case
  proof (cases "length (getModulesByFilepath p path) = 0
                \<or> path \<in> filesMap env \<or> isTestFile p path")
    case True
    with Cons acc show ?thesis
      by (auto simp: Let_def)
  next
    case False
    let ?st1 = "st\<lparr>invalidates := insert path (invalidates st)\<rparr>"
    from False Cons.prems acc obtain st2 rerun where
      mods: "visit_mods recur (getModulesByFilepath p path) (?st1, False) = Some (st2, rerun)"
      and rest: "visit_projects recur env path ps (st2, if rerun then files @ [path] else files)
                   = Some x"
      by (auto simp: Let_def split: option.splits)
    from visit_mods_mono [OF assms mods] Cons.IH [OF rest] False acc show ?thesis
      by (simp add: Let_def)
  qed
qed

lemma handleFileChanged_fuel_Suc:
  "handleFileChanged fuel env st path = Some r \<Longrightarrow> handleFileChanged (Suc fuel) env st path = Some r"
proof (induction fuel arbitrary: st path r)
  case 0
  then show ?case by simp
next
  case (Suc n)
  have step: "\<And>s g r. handleFileChanged n env s g = Some r \<Longrightarrow>
                handleFileChanged (Suc n) env s g = Some r"
    by (rule Suc.IH)
  show ?case
  proof (cases "path \<in> changedTests st \<or> path \<in> invalidates st \<or> forceRerunTrigger env path
                \<or> length (getModuleProjects env path) = 0")
    case True
    with Suc.prems show ?thesis
      by (auto simp: Let_def split: if_splits)
  next
    case False
    with Suc.prems obtain st' files where
      loop: "visit_projects (handleFileChanged n env) env path (getModuleProjects env path)
               (st\<lparr>expanded := expanded st @ [path]\<rparr>, []) = Some (st', files)"
      and r: "r = (st', remdups files)"
      by (auto simp: Let_def split: option.splits)
    from visit_projects_mono [of "handleFileChanged n env" "handleFileChanged (Suc n) env", OF step loop]
      False r show ?thesis
      by (simp add: Let_def)
  qed
qed

lemma handleFileChanged_fuel_add:
  "handleFileChanged fuel env st path = Some r \<Longrightarrow>
     handleFileChanged (fuel + k) env st path = Some r"
proof (induction k)
  case 0
  then show ?case by simp
next
  case (Suc k)
  from handleFileChanged_fuel_Suc [OF Suc.IH [OF Suc.prems]] show ?case
    by (simp only: add_Suc_right)
qed

lemma handleFileChanged_fuel_mono:
  assumes "fuel \<le> fuel'" and "handleFileChanged fuel env st path = Some r"
  shows "handleFileChanged fuel' env st path = Some r"
proof -
  from assms(1) obtain k where "fuel' = fuel + k"
    using le_Suc_ex by blast
  with handleFileChanged_fuel_add [OF assms(2), of k] show ?thesis
    by simp
qed

text \<open>
  C8. \<open>handleFileChanged\<close> returns on every importer graph, cycles included: a depth of
  recursion of one more than the number of files of the graph is enough from any state,
  and more fuel gives the same answer. A path that is already in the changed-tests set or
  in the invalidated set returns at once, with the state unchanged and an empty result.
  During a call both sets only grow, and a path whose importers are visited is in the
  invalidated set before the first of them is, so the log of expanded paths never holds a
  path twice. An importer without a file is skipped: the loop goes on as if it were not
  there.
\<close>

theorem handleFileChanged_terminates:
  "(\<exists>st' files.
      handleFileChanged (Suc (card (graph_files env))) env st path = Some (st', files)
      \<and> (\<forall>fuel. Suc (card (graph_files env)) \<le> fuel \<longrightarrow>
             handleFileChanged fuel env st path = Some (st', files))
      \<and> invalidates st \<subseteq> invalidates st' \<and> changedTests st \<subseteq> changedTests st'
      \<and> (distinct (expanded st) \<and> set (expanded st) \<subseteq> invalidates st \<longrightarrow>
            distinct (expanded st') \<and> set (expanded st') \<subseteq> invalidates st')
      \<and> (path \<notin> changedTests st \<and> path \<notin> invalidates st \<and> \<not> forceRerunTrigger env path
            \<and> length (getModuleProjects env path) \<noteq> 0 \<longrightarrow>
            path \<in> invalidates st' \<and> path \<in> set (expanded st')))
   \<and> (path \<in> changedTests st \<or> path \<in> invalidates st \<longrightarrow>
         handleFileChanged (Suc fuel0) env st path = Some (st, []))
   \<and> visit_importers recur (None # rest) acc = visit_importers recur rest acc"
proof -
  let ?n = "Suc (card (graph_files env))"
  have "card (graph_files env - invalidates st) \<le> card (graph_files env)"
    by (simp add: card_mono)
  then have "card (graph_files env - invalidates st) < ?n"
    by simp
  from handleFileChanged_returns [OF this, of path] obtain st' files where
    call: "handleFileChanged ?n env st path = Some (st', files)"
    and g: "grows st st'" and l: "log_inv {} st \<longrightarrow> log_inv {} st'"
    and e: "path \<notin> changedTests st \<and> path \<notin> invalidates st \<and> \<not> forceRerunTrigger env path
            \<and> length (getModuleProjects env path) \<noteq> 0 \<longrightarrow>
            path \<in> invalidates st' \<and> path \<in> set (expanded st')"
    by blast
  have more: "\<forall>fuel. ?n \<le> fuel \<longrightarrow> handleFileChanged fuel env st path = Some (st', files)"
    using call by (blast intro: handleFileChanged_fuel_mono)
  have sets: "invalidates st \<subseteq> invalidates st' \<and> changedTests st \<subseteq> changedTests st'"
    using g by (simp add: grows_def)
  have log: "distinct (expanded st) \<and> set (expanded st) \<subseteq> invalidates st \<longrightarrow>
            distinct (expanded st') \<and> set (expanded st') \<subseteq> invalidates st'"
    using l by (simp add: log_inv_def)
  have guard: "path \<in> changedTests st \<or> path \<in> invalidates st \<longrightarrow>
         handleFileChanged (Suc fuel0) env st path = Some (st, [])"
    by simp
  have skip: "visit_importers recur (None # rest) acc = visit_importers recur rest acc"
    by simp
  from call more sets log e guard skip show ?thesis
    by blast
qed

lemma graph_files_cyclic: "graph_files cyclic_env = {''a.ts'', ''b.ts'', ''t.test.ts''}"
  by (simp add: graph_files_def cyclic_env_def cyclic_project_def)

lemma card_graph_files_cyclic: "card (graph_files cyclic_env) = 3"
  by (simp add: graph_files_cyclic)

lemma handleFileChanged_cyclic:
  "handleFileChanged 4 cyclic_env idle ''a.ts'' =
   Some (idle\<lparr>invalidates := {''a.ts'', ''b.ts'', ''t.test.ts''}, changedTests := {''t.test.ts''},
              expanded := [''a.ts'', ''b.ts'', ''t.test.ts'']\<rparr>, [''a.ts''])"
  by (simp add: cyclic_env_def cyclic_project_def idle_def getModuleProjects_def
      getModulesByFilepath_def isTestFile_def eval_nat_numeral insert_commute)

theorem handleFileChanged_terminates_witness:
  "distinct (expanded idle) \<and> set (expanded idle) \<subseteq> invalidates idle
   \<and> ''a.ts'' \<notin> changedTests idle \<and> ''a.ts'' \<notin> invalidates idle
   \<and> \<not> forceRerunTrigger cyclic_env ''a.ts''
   \<and> length (getModuleProjects cyclic_env ''a.ts'') \<noteq> 0
   \<and> Suc (card (graph_files cyclic_env)) \<le> 7
   \<and> handleFileChanged 7 cyclic_env idle ''a.ts'' =
       Some (idle\<lparr>invalidates := {''a.ts'', ''b.ts'', ''t.test.ts''},
                  changedTests := {''t.test.ts''},
                  expanded := [''a.ts'', ''b.ts'', ''t.test.ts'']\<rparr>, [''a.ts''])
   \<and> ''a.ts'' \<in> invalidates (idle\<lparr>invalidates := {''a.ts'', ''b.ts'', ''t.test.ts''}\<rparr>)
   \<and> handleFileChanged (Suc 0) cyclic_env (idle\<lparr>invalidates := {''a.ts''}\<rparr>) ''a.ts''
       = Some (idle\<lparr>invalidates := {''a.ts''}\<rparr>, [])"
proof -
  have h: "distinct (expanded idle) \<and> set (expanded idle) \<subseteq> invalidates idle
     \<and> ''a.ts'' \<notin> changedTests idle \<and> ''a.ts'' \<notin> invalidates idle
     \<and> \<not> forceRerunTrigger cyclic_env ''a.ts''
     \<and> length (getModuleProjects cyclic_env ''a.ts'') \<noteq> 0"
    by (simp add: idle_def cyclic_env_def cyclic_project_def getModuleProjects_def
        getModulesByFilepath_def)
  have four: "Suc (card (graph_files cyclic_env)) = 4"
    by (simp add: card_graph_files_cyclic)
  from handleFileChanged_terminates [of cyclic_env idle "''a.ts''" 0] obtain st' files where
    call: "handleFileChanged (Suc (card (graph_files cyclic_env))) cyclic_env idle ''a.ts''
             = Some (st', files)"
    and more: "\<forall>fuel. Suc (card (graph_files cyclic_env)) \<le> fuel \<longrightarrow>
             handleFileChanged fuel cyclic_env idle ''a.ts'' = Some (st', files)"
    by blast
  from call four handleFileChanged_cyclic
  have "(st', files) = (idle\<lparr>invalidates := {''a.ts'', ''b.ts'', ''t.test.ts''},
                  changedTests := {''t.test.ts''},
                  expanded := [''a.ts'', ''b.ts'', ''t.test.ts'']\<rparr>, [''a.ts''])"
    by simp
  with more four have seven: "handleFileChanged 7 cyclic_env idle ''a.ts'' =
       Some (idle\<lparr>invalidates := {''a.ts'', ''b.ts'', ''t.test.ts''},
                  changedTests := {''t.test.ts''},
                  expanded := [''a.ts'', ''b.ts'', ''t.test.ts'']\<rparr>, [''a.ts''])"
    by simp
  have guard: "handleFileChanged (Suc 0) cyclic_env (idle\<lparr>invalidates := {''a.ts''}\<rparr>) ''a.ts''
       = Some (idle\<lparr>invalidates := {''a.ts''}\<rparr>, [])"
    using handleFileChanged_terminates [of cyclic_env "idle\<lparr>invalidates := {''a.ts''}\<rparr>" "''a.ts''" 0]
    by simp
  from h four seven guard show ?thesis
    by simp
qed

subsection \<open>Propagation of only and skip\<close>

lemma skipAllTasks_Suite: "skipAllTasks (Suite b ts) = Suite b (map skipChild ts)"
  by (simp only: skipAllTasks.simps skipChild_def [abs_def] Let_def)

declare skipAllTasks.simps(1) [simp del]

lemma tasks_skipAllTasks: "tasks (skipAllTasks t) = map skipChild (tasks t)"
  by (cases t) (simp_all add: skipAllTasks_Suite)

lemma type_of_skipAllTasks [simp]: "type_of (skipAllTasks t) = type_of t"
  by (cases t) (simp_all add: skipAllTasks_Suite)

lemma mode_skipChild_Run: "mode (base t) = Run \<Longrightarrow> mode (base (skipChild t)) = Skip"
  by (simp add: skipChild_def Let_def)

lemma skipChild_other: "mode (base t) \<noteq> Run \<Longrightarrow> skipChild t = t"
  by (simp add: skipChild_def)

lemma tasks_skipChild_Run:
  "mode (base t) = Run \<Longrightarrow> tasks (skipChild t) = map skipChild (tasks t)"
  by (cases t) (simp_all add: skipChild_def Let_def tasks_skipAllTasks set_mode_def)

lemma task_at_Cons:
  "task_at t (i # p) = Some x \<longleftrightarrow> i < length (tasks t) \<and> task_at (tasks t ! i) p = Some x"
  by simp

lemma tasks_nonempty_Suite: "tasks t \<noteq> [] \<Longrightarrow> type_of t = TSuite"
  by (cases t) simp_all

lemma task_at_tasks_eq:
  "tasks t = tasks t' \<Longrightarrow> p \<noteq> [] \<Longrightarrow> task_at t p = task_at t' p"
  by (cases p) simp_all

lemma tasks_on_path_tasks_eq:
  "tasks t = tasks t' \<Longrightarrow> tasks_on_path t p = tasks_on_path t' p"
  by (cases p) simp_all

text \<open>Inside a force-skipped suite every task that is linked to it by run-mode tasks
  ends in mode skip.\<close>

lemma skipAllTasks_run_chain:
  "task_at s q = Some d \<Longrightarrow> q \<noteq> [] \<Longrightarrow>
   \<forall>a \<in> set (tasks_on_path s q). mode (base a) = Run \<Longrightarrow>
   \<exists>d'. task_at (skipAllTasks s) q = Some d' \<and> mode (base d') = Skip"
proof (induction q arbitrary: s d)
  case Nil
  then show ?case by simp
next
  case (Cons i q)
  let ?c = "tasks s ! i"
  from Cons.prems have i: "i < length (tasks s)" and d: "task_at ?c q = Some d"
    and run: "mode (base ?c) = Run" and rest: "\<forall>a \<in> set (tasks_on_path ?c q). mode (base a) = Run"
    by (simp_all split: if_splits)
  have child: "tasks (skipAllTasks s) ! i = skipChild ?c"
    using i by (simp add: tasks_skipAllTasks)
  show ?case
  proof (cases "q = []")
    case True
    with i child run show ?thesis
      by (simp add: tasks_skipAllTasks mode_skipChild_Run)
  next
    case False
    with d have "tasks ?c \<noteq> []"
      by (cases q) auto
    then have suite: "type_of ?c = TSuite"
      by (rule tasks_nonempty_Suite)
    let ?c' = "set_mode Skip ?c"
    have "task_at ?c' q = Some d"
      using d False task_at_tasks_eq [of ?c' ?c q] by simp
    moreover have "\<forall>a \<in> set (tasks_on_path ?c' q). mode (base a) = Run"
      using rest tasks_on_path_tasks_eq [of ?c' ?c q] by simp
    ultimately obtain d' where "task_at (skipAllTasks ?c') q = Some d'" "mode (base d') = Skip"
      using Cons.IH [of ?c' d] False by blast
    moreover have "skipChild ?c = skipAllTasks ?c'"
      using run suite by (simp add: skipChild_def Let_def)
    ultimately show ?thesis
      using i child by (simp add: tasks_skipAllTasks)
  qed
qed

lemma only_step_plain:
  "mode (base c) \<noteq> Only \<Longrightarrow>
     only_step True False ao c =
       (if mode (base c) = Run \<and> \<not> (type_of c = TSuite \<and> someTasksAreOnly c)
        then set_mode Skip c else c)"
  by (auto simp: only_step_def)

lemma interpretChild_demotes:
  assumes "mode (base c) = Run" and "\<not> (type_of c = TSuite \<and> someTasksAreOnly c)"
  shows "mode (base (interpretChild suites np True False ao c)) = Skip"
proof -
  have step: "only_step True False ao c = set_mode Skip c"
    using assms by (simp add: only_step_plain)
  show ?thesis
  proof (cases "type_of c")
    case TSuite
    then show ?thesis
      using assms by (simp add: interpretChild_Suite step)
  next
    case TTest
    then show ?thesis
      using assms by (simp add: interpretChild_Test step mode_name_step split: option.splits)
  next
    case TCustom
    then show ?thesis
      using assms by (simp add: interpretChild_Custom step)
  qed
qed

lemma interpretChild_demoted_suite:
  assumes "mode (base c) = Run" and "type_of c = TSuite" and "\<not> someTasksAreOnly c"
  shows "interpretChild suites np True False ao c = skipAllTasks (set_mode Skip c)"
  using assms by (simp add: interpretChild_Suite only_step_plain)

lemma interpretChild_kept_suite:
  assumes "type_of c = TSuite" and "mode (base c) \<noteq> Only" and "mode (base c) \<noteq> Skip"
    and "mode (base c) = Run \<longrightarrow> someTasksAreOnly c"
  shows "interpretChild suites np True False ao c =
           interpretTaskModes (name (base c) # suites) c np True False ao"
  using assms by (auto simp: interpretChild_Suite only_step_plain Let_def)

lemma interpretChild_skipped_suite:
  assumes "type_of c = TSuite" and "mode (base c) = Skip"
  shows "mode (base (interpretChild suites np True False ao c)) = Skip"
  using assms by (simp add: interpretChild_Suite only_step_plain Let_def)

lemma nth_tasks_interpretTaskModes:
  assumes "i < length (tasks s)"
  shows "tasks (interpretTaskModes suites s np om pio ao) ! i =
           interpretChild suites np om (pio \<or> mode (base s) = Only) ao (tasks s ! i)"
  using assms by (cases s) (simp_all add: tasks_interpretTaskModes)

lemma tasks_on_path_nonempty:
  "task_at c q = Some d \<Longrightarrow> q \<noteq> [] \<Longrightarrow> tasks_on_path c q \<noteq> []"
  by (cases q) (auto split: if_splits)

lemma tasks_on_path_last:
  "task_at c q = Some d \<Longrightarrow> q \<noteq> [] \<Longrightarrow>
     tasks_on_path c q = butlast (tasks_on_path c q) @ [d]"
proof (induction q arbitrary: c)
  case Nil
  then show ?case by simp
next
  case (Cons i q)
  then have i: "i < length (tasks c)" and d: "task_at (tasks c ! i) q = Some d"
    by (simp_all split: if_splits)
  show ?case
  proof (cases "q = []")
    case True
    with i d show ?thesis by simp
  next
    case False
    from Cons.IH [OF d False] tasks_on_path_nonempty [OF d False] i show ?thesis
      by simp
  qed
qed

lemma butlast_tasks_on_path_Cons:
  assumes "i < length (tasks s)" and "task_at (tasks s ! i) q = Some d" and "q \<noteq> []"
  shows "butlast (tasks_on_path s (i # q)) = tasks s ! i # butlast (tasks_on_path (tasks s ! i) q)"
  using assms tasks_on_path_nonempty [OF assms(2,3)] by simp

lemma someTasksAreOnly_tasks: "someTasksAreOnly t \<Longrightarrow> tasks t \<noteq> []"
  by (cases t) auto

lemma skipAllTasks_unvisited:
  "task_at s q = Some d \<Longrightarrow>
   \<not> list_all (\<lambda>x. mode (base x) = Run) (butlast (tasks_on_path s q)) \<Longrightarrow>
   task_at (skipAllTasks s) q = Some d"
proof (induction q arbitrary: s)
  case Nil
  then show ?case by simp
next
  case (Cons i q)
  let ?c = "tasks s ! i"
  from Cons.prems(1) have i: "i < length (tasks s)" and d: "task_at ?c q = Some d"
    by (simp_all split: if_splits)
  have ne: "q \<noteq> []"
  proof
    assume "q = []"
    with Cons.prems(2) i show False by simp
  qed
  have chain: "butlast (tasks_on_path s (i # q)) = ?c # butlast (tasks_on_path ?c q)"
    using i d ne by (rule butlast_tasks_on_path_Cons)
  have at: "task_at (skipAllTasks s) (i # q) = task_at (skipChild ?c) q"
    using i by (simp add: tasks_skipAllTasks)
  show ?case
  proof (cases "mode (base ?c) = Run")
    case False
    then show ?thesis
      using at d by (simp add: skipChild_other)
  next
    case True
    from d ne have "tasks ?c \<noteq> []"
      by (cases q) auto
    then have suite: "type_of ?c = TSuite"
      by (rule tasks_nonempty_Suite)
    let ?c' = "set_mode Skip ?c"
    have same: "tasks ?c' = tasks ?c"
      by simp
    have d': "task_at ?c' q = Some d"
      using d task_at_tasks_eq [OF same ne] by (simp only:)
    have "\<not> list_all (\<lambda>x. mode (base x) = Run) (butlast (tasks_on_path ?c q))"
      using Cons.prems(2) True unfolding chain by simp
    then have rest: "\<not> list_all (\<lambda>x. mode (base x) = Run) (butlast (tasks_on_path ?c' q))"
      unfolding tasks_on_path_tasks_eq [OF same, of q] .
    have "skipChild ?c = skipAllTasks ?c'"
      using True suite by (simp add: skipChild_def Let_def)
    with Cons.IH [OF d' rest] at show ?thesis
      by (simp only:)
  qed
qed

lemma interpretChild_force_skips:
  assumes "type_of c = TSuite" and "force_skips c"
  shows "\<exists>c1. interpretChild suites np True False ao c = skipAllTasks c1
             \<and> tasks c1 = tasks c \<and> mode (base c1) = Skip"
proof (cases "mode (base c) = Skip")
  case True
  with assms(1) have "interpretChild suites np True False ao c = skipAllTasks c"
    by (simp add: interpretChild_Suite only_step_plain Let_def)
  with True show ?thesis by blast
next
  case False
  with assms(2) have run: "mode (base c) = Run" and no_only: "\<not> someTasksAreOnly c"
    by (auto simp: force_skips_def)
  from interpretChild_demoted_suite [OF run assms(1) no_only]
  have "interpretChild suites np True False ao c = skipAllTasks (set_mode Skip c)" .
  then show ?thesis
    by (intro exI [of _ "set_mode Skip c"]) simp
qed

lemma interpretChild_only_suite:
  assumes "type_of t = TSuite" and "mode (base t) = Run" and "someTasksAreOnly t"
  shows "mode (base (interpretChild suites np True False ao t)) =
           (if list_all (\<lambda>c. mode (base c) \<noteq> Run)
                 (tasks (interpretChild suites np True False ao t))
            then Skip else Run)"
proof -
  have eq: "interpretChild suites np True False ao t =
              interpretTaskModes (name (base t) # suites) t np True False ao"
    using assms by (intro interpretChild_kept_suite) simp_all
  have "tasks (interpretTaskModes (name (base t) # suites) t np True False ao) \<noteq> []"
    using someTasksAreOnly_tasks [OF assms(3)]
    by (metis length_0_conv length_tasks_interpretTaskModes)
  with mode_interpretTaskModes [OF assms(1), of "name (base t) # suites" np True False ao] assms(2)
  show ?thesis
    unfolding eq by (simp add: Let_def)
qed

lemma only_walk_modes:
  "task_at s p = Some t \<Longrightarrow> p \<noteq> [] \<Longrightarrow> mode (base t) = Run \<Longrightarrow>
   mode (base s) \<noteq> Only \<Longrightarrow>
   \<forall>a \<in> set (tasks_on_path s p). mode (base a) \<noteq> Only \<Longrightarrow>
   \<exists>t'. task_at (interpretTaskModes suites s np True False ao) p = Some t'
     \<and> (only_walk (butlast (tasks_on_path s p)) = Interpreted \<longrightarrow>
          (if type_of t = TSuite \<and> someTasksAreOnly t
           then mode (base t') =
                  (if list_all (\<lambda>c. mode (base c) \<noteq> Run) (tasks t') then Skip else Run)
           else mode (base t') = Skip))
     \<and> (only_walk (butlast (tasks_on_path s p)) = ForceSkipped \<longrightarrow> mode (base t') = Skip)
     \<and> (only_walk (butlast (tasks_on_path s p)) = Unvisited \<longrightarrow>
          t' = t
          \<and> (\<exists>a \<in> set (butlast (tasks_on_path
                                   (interpretTaskModes suites s np True False ao) p)).
                mode (base a) = Skip))"
proof (induction p arbitrary: s suites)
  case Nil
  then show ?case by simp
next
  case (Cons i q)
  let ?c = "tasks s ! i"
  let ?r = "interpretTaskModes suites s np True False ao"
  let ?c' = "interpretChild suites np True False ao ?c"
  from Cons.prems have i: "i < length (tasks s)" and t: "task_at ?c q = Some t"
    and c_not_only: "mode (base ?c) \<noteq> Only"
    and rest: "\<forall>a \<in> set (tasks_on_path ?c q). mode (base a) \<noteq> Only"
    by (simp_all split: if_splits)
  have child: "tasks ?r ! i = ?c'"
    using i Cons.prems(4) by (simp add: nth_tasks_interpretTaskModes)
  have len: "i < length (tasks ?r)"
    using i by simp
  have at_r: "task_at ?r (i # q) = task_at ?c' q"
    using len child by simp
  show ?case
  proof (cases "q = []")
    case True
    with t have c_t: "?c = t" by simp
    have walk: "only_walk (butlast (tasks_on_path s (i # q))) = Interpreted"
      using True i by simp
    have "if type_of t = TSuite \<and> someTasksAreOnly t
          then mode (base ?c') =
                 (if list_all (\<lambda>c. mode (base c) \<noteq> Run) (tasks ?c') then Skip else Run)
          else mode (base ?c') = Skip"
    proof (cases "type_of t = TSuite \<and> someTasksAreOnly t")
      case True
      with Cons.prems(3) c_t interpretChild_only_suite [of t suites np ao] show ?thesis
        by simp
    next
      case False
      with Cons.prems(3) c_t interpretChild_demotes [of t suites np ao] show ?thesis
        by simp
    qed
    with walk at_r True show ?thesis
      by simp
  next
    case False
    with t have "tasks ?c \<noteq> []"
      by (cases q) auto
    then have suite: "type_of ?c = TSuite"
      by (rule tasks_nonempty_Suite)
    have chain: "butlast (tasks_on_path s (i # q)) = ?c # butlast (tasks_on_path ?c q)"
      using i t False by (rule butlast_tasks_on_path_Cons)
    show ?thesis
    proof (cases "force_skips ?c")
      case True
      from interpretChild_force_skips [OF suite True, of suites np ao] obtain c1 where
        c': "?c' = skipAllTasks c1" and same: "tasks c1 = tasks ?c" and skip: "mode (base c1) = Skip"
        by blast
      have t1: "task_at c1 q = Some t"
        using t task_at_tasks_eq [OF same False] by (simp only:)
      have path1: "tasks_on_path c1 q = tasks_on_path ?c q"
        by (rule tasks_on_path_tasks_eq [OF same])
      have c'_skip: "mode (base ?c') = Skip"
        using c' skip by simp
      show ?thesis
      proof (cases "list_all (\<lambda>x. mode (base x) = Run) (butlast (tasks_on_path ?c q))")
        case all_run: True
        have walk: "only_walk (butlast (tasks_on_path s (i # q))) = ForceSkipped"
          unfolding chain using True all_run by simp
        have "tasks_on_path ?c q = butlast (tasks_on_path ?c q) @ [t]"
          using t False by (rule tasks_on_path_last)
        then have "set (tasks_on_path ?c q) = set (butlast (tasks_on_path ?c q)) \<union> {t}"
          by (metis list.simps(15) set_append empty_set Un_commute insert_is_Un)
        with all_run Cons.prems(3)
        have "\<forall>a \<in> set (tasks_on_path ?c q). mode (base a) = Run"
          by (auto simp: list_all_iff)
        then have run1: "\<forall>a \<in> set (tasks_on_path c1 q). mode (base a) = Run"
          unfolding path1 .
        from skipAllTasks_run_chain [OF t1 False run1] obtain t' where
          "task_at (skipAllTasks c1) q = Some t'" "mode (base t') = Skip"
          by blast
        with walk at_r c' show ?thesis
          by simp
      next
        case some_other: False
        have walk: "only_walk (butlast (tasks_on_path s (i # q))) = Unvisited"
          unfolding chain using True some_other by simp
        have "\<not> list_all (\<lambda>x. mode (base x) = Run) (butlast (tasks_on_path c1 q))"
          unfolding path1 using some_other .
        from skipAllTasks_unvisited [OF t1 this]
        have same_t: "task_at ?c' q = Some t"
          unfolding c' .
        have "butlast (tasks_on_path ?r (i # q)) = ?c' # butlast (tasks_on_path ?c' q)"
          using len same_t False child butlast_tasks_on_path_Cons [of i ?r q t] by simp
        with c'_skip have "\<exists>a \<in> set (butlast (tasks_on_path ?r (i # q))). mode (base a) = Skip"
          by simp
        with walk at_r same_t show ?thesis
          by simp
      qed
    next
      case kept: False
      let ?r' = "interpretTaskModes (name (base ?c) # suites) ?c np True False ao"
      have c': "?c' = ?r'"
        using suite c_not_only kept
        by (intro interpretChild_kept_suite) (auto simp: force_skips_def)
      have walk: "only_walk (butlast (tasks_on_path s (i # q)))
                  = only_walk (butlast (tasks_on_path ?c q))"
        unfolding chain using kept by simp
      from Cons.IH [OF t False Cons.prems(3) c_not_only rest, of "name (base ?c) # suites"]
      obtain t' where
        at': "task_at ?r' q = Some t'"
        and interp: "only_walk (butlast (tasks_on_path ?c q)) = Interpreted \<longrightarrow>
          (if type_of t = TSuite \<and> someTasksAreOnly t
           then mode (base t') =
                  (if list_all (\<lambda>c. mode (base c) \<noteq> Run) (tasks t') then Skip else Run)
           else mode (base t') = Skip)"
        and force: "only_walk (butlast (tasks_on_path ?c q)) = ForceSkipped \<longrightarrow>
                      mode (base t') = Skip"
        and unvis: "only_walk (butlast (tasks_on_path ?c q)) = Unvisited \<longrightarrow>
          t' = t \<and> (\<exists>a \<in> set (butlast (tasks_on_path ?r' q)). mode (base a) = Skip)"
        by blast
      have at'': "task_at ?c' q = Some t'"
        using at' c' by simp
      have "butlast (tasks_on_path ?r (i # q)) = ?c' # butlast (tasks_on_path ?c' q)"
        using len at'' False child butlast_tasks_on_path_Cons [of i ?r q t'] by simp
      then have sub: "set (butlast (tasks_on_path ?r' q))
                      \<subseteq> set (butlast (tasks_on_path ?r (i # q)))"
        using c' by auto
      have "task_at ?r (i # q) = Some t'"
        using at_r at'' by simp
      with interp force unvis sub show ?thesis
        unfolding walk by blast
    qed
  qed
qed

text \<open>
  C1, as the code has it. In a call of \<open>interpretTaskModes\<close> with \<open>onlyMode = true\<close> and
  \<open>parentIsOnly = false\<close> on a suite that is not marked \<open>only\<close>, take a task that was in
  mode \<open>run\<close> and has no enclosing suite marked \<open>only\<close>. Call an enclosing suite below
  the interpreted one force-skipping when it was in mode \<open>skip\<close>, or in mode \<open>run\<close> without
  a task marked \<open>only\<close> in it. When no enclosing suite is force-skipping, the task ends in
  mode \<open>skip\<close>, unless it is a suite that contains a task marked \<open>only\<close>: such a suite ends
  in mode \<open>skip\<close> when none of its children ends in mode \<open>run\<close>, and in mode \<open>run\<close>
  otherwise. When all enclosing suites below the outermost force-skipping one were in mode
  \<open>run\<close>, the task ends in mode \<open>skip\<close>. Otherwise the task is left as it was, in mode
  \<open>run\<close>, and one of its enclosing suites ends in mode \<open>skip\<close>.
\<close>

theorem only_propagation:
  assumes "task_at s p = Some t" and "p \<noteq> []" and "mode (base t) = Run"
    and "mode (base s) \<noteq> Only"
    and "\<forall>a \<in> set (tasks_on_path s p). mode (base a) \<noteq> Only"
  shows "\<exists>t'. task_at (interpretTaskModes suites s np True False ao) p = Some t'
     \<and> (only_walk (butlast (tasks_on_path s p)) = Interpreted \<longrightarrow>
          (if type_of t = TSuite \<and> someTasksAreOnly t
           then mode (base t') =
                  (if list_all (\<lambda>c. mode (base c) \<noteq> Run) (tasks t') then Skip else Run)
           else mode (base t') = Skip))
     \<and> (only_walk (butlast (tasks_on_path s p)) = ForceSkipped \<longrightarrow> mode (base t') = Skip)
     \<and> (only_walk (butlast (tasks_on_path s p)) = Unvisited \<longrightarrow>
          t' = t
          \<and> (\<exists>a \<in> set (butlast (tasks_on_path
                                   (interpretTaskModes suites s np True False ao) p)).
                mode (base a) = Skip))"
  using assms by (rule only_walk_modes)

lemma interpret_scenario:
  "interpretTaskModes [] scenario None True False True =
     Suite (new_task ''root'' Run)
       [Suite (new_task ''S1'' Run) [Test (new_task ''t1'' Skip), Test (new_task ''t2'' Run)],
        Suite (new_task ''S2'' Skip) [Test (new_task ''t3'' Skip)]]"
  by (simp add: scenario_def interpretTaskModes_Suite interpretChild_def only_step_def
      name_step_def collapse_def new_task_def set_mode_def checkAllowOnly_def
      skipAllTasks_Suite skipChild_def)

lemma interpret_nested_skip:
  "interpretTaskModes [] nested_skip None True False True =
     Suite (new_task ''root'' Run)
       [Suite (new_task ''S1'' Run) [Test (new_task ''t1'' Skip), Test (new_task ''t2'' Run)],
        Suite (new_task ''S3'' Skip) [Suite (new_task ''S4'' Todo) [Test (new_task ''t5'' Run)]]]"
  by (simp add: nested_skip_def interpretTaskModes_Suite interpretChild_def only_step_def
      name_step_def collapse_def new_task_def set_mode_def checkAllowOnly_def
      skipAllTasks_Suite skipChild_def)

text \<open>
  In the file \<open>nested_skip\<close> no suite is marked \<open>only\<close>. The suite \<open>S1\<close> was in mode
  \<open>run\<close>; it holds the \<open>only\<close> test \<open>t2\<close> and stays in mode \<open>run\<close>. The test \<open>t5\<close> was in
  mode \<open>run\<close>; it lies in the \<open>todo\<close> suite \<open>S4\<close> inside the skipped suite \<open>S3\<close>, is not
  visited, and keeps the mode \<open>run\<close>.
\<close>

theorem only_propagation_counterexample:
  "someTasksAreOnly nested_skip
   \<and> mode (base nested_skip) = Run
   \<and> mode (base (tasks nested_skip ! 0)) = Run
   \<and> mode (base (tasks (interpretTaskModes [] nested_skip None True False True) ! 0)) = Run
   \<and> mode (base (tasks nested_skip ! 1)) = Skip
   \<and> mode (base (tasks (tasks nested_skip ! 1) ! 0)) = Todo
   \<and> \<not> someTasksAreOnly (tasks nested_skip ! 1)
   \<and> mode (base (tasks (tasks (tasks nested_skip ! 1) ! 0) ! 0)) = Run
   \<and> mode (base (tasks (tasks (tasks
         (interpretTaskModes [] nested_skip None True False True) ! 1) ! 0) ! 0)) = Run"
  by (simp add: interpret_nested_skip) (simp add: nested_skip_def new_task_def)

theorem only_propagation_witness:
  "task_at scenario [0, 0] = Some (Test (new_task ''t1'' Run))
   \<and> [0, 0] \<noteq> ([] :: nat list)
   \<and> mode (base (Test (new_task ''t1'' Run))) = Run
   \<and> mode (base scenario) \<noteq> Only
   \<and> map (\<lambda>a. mode (base a)) (tasks_on_path scenario [0, 0]) = [Run, Run]
   \<and> only_walk (butlast (tasks_on_path scenario [0, 0])) = Interpreted
   \<and> (\<exists>t'. task_at (interpretTaskModes [] scenario None True False True) [0, 0] = Some t'
          \<and> mode (base t') = Skip)
   \<and> task_at (interpretTaskModes [] scenario None True False True) [0, 0]
       = Some (Test (new_task ''t1'' Skip))
   \<and> task_at scenario [1, 0] = Some (Test (new_task ''t3'' Run))
   \<and> only_walk (butlast (tasks_on_path scenario [1, 0])) = ForceSkipped
   \<and> (\<exists>t'. task_at (interpretTaskModes [] scenario None True False True) [1, 0] = Some t'
          \<and> mode (base t') = Skip)
   \<and> task_at nested_skip [1, 0, 0] = Some (Test (new_task ''t5'' Run))
   \<and> map (\<lambda>a. mode (base a)) (tasks_on_path nested_skip [1, 0, 0]) = [Skip, Todo, Run]
   \<and> only_walk (butlast (tasks_on_path nested_skip [1, 0, 0])) = Unvisited
   \<and> task_at (interpretTaskModes [] nested_skip None True False True) [1, 0, 0]
       = Some (Test (new_task ''t5'' Run))"
proof -
  let ?r = "interpretTaskModes [] scenario None True False True"
  let ?n = "interpretTaskModes [] nested_skip None True False True"
  have at1: "task_at scenario [0, 0] = Some (Test (new_task ''t1'' Run))"
    and at3: "task_at scenario [1, 0] = Some (Test (new_task ''t3'' Run))"
    by (simp_all add: scenario_def)
  have at5: "task_at nested_skip [1, 0, 0] = Some (Test (new_task ''t5'' Run))"
    by (simp add: nested_skip_def)
  have p1: "[0, 0] \<noteq> ([] :: nat list)" and p3: "[1, 0] \<noteq> ([] :: nat list)"
    and p5: "[1, 0, 0] \<noteq> ([] :: nat list)"
    by simp_all
  have run1: "mode (base (Test (new_task ''t1'' Run))) = Run"
    and run3: "mode (base (Test (new_task ''t3'' Run))) = Run"
    and run5: "mode (base (Test (new_task ''t5'' Run))) = Run"
    by (simp_all add: new_task_def)
  have root: "mode (base scenario) \<noteq> Only" and root': "mode (base nested_skip) \<noteq> Only"
    by (simp_all add: scenario_def nested_skip_def new_task_def)
  have modes1: "map (\<lambda>a. mode (base a)) (tasks_on_path scenario [0, 0]) = [Run, Run]"
    and modes5: "map (\<lambda>a. mode (base a)) (tasks_on_path nested_skip [1, 0, 0]) = [Skip, Todo, Run]"
    by (simp_all add: scenario_def nested_skip_def new_task_def)
  have no_only1: "\<forall>a \<in> set (tasks_on_path scenario [0, 0]). mode (base a) \<noteq> Only"
    and no_only3: "\<forall>a \<in> set (tasks_on_path scenario [1, 0]). mode (base a) \<noteq> Only"
    by (simp_all add: scenario_def new_task_def)
  have no_only5: "\<forall>a \<in> set (tasks_on_path nested_skip [1, 0, 0]). mode (base a) \<noteq> Only"
    by (simp add: nested_skip_def new_task_def)
  have walk1: "only_walk (butlast (tasks_on_path scenario [0, 0])) = Interpreted"
    and walk3: "only_walk (butlast (tasks_on_path scenario [1, 0])) = ForceSkipped"
    by (simp_all add: scenario_def new_task_def force_skips_def)
  have walk5: "only_walk (butlast (tasks_on_path nested_skip [1, 0, 0])) = Unvisited"
    by (simp add: nested_skip_def new_task_def force_skips_def)
  from only_propagation [OF at1 p1 run1 root no_only1, of "[]" None True] walk1
  have skip1: "\<exists>t'. task_at ?r [0, 0] = Some t' \<and> mode (base t') = Skip"
    by auto
  from only_propagation [OF at3 p3 run3 root no_only3, of "[]" None True] walk3
  have skip3: "\<exists>t'. task_at ?r [1, 0] = Some t' \<and> mode (base t') = Skip"
    by auto
  from only_propagation [OF at5 p5 run5 root' no_only5, of "[]" None True] walk5
  have same5: "task_at ?n [1, 0, 0] = Some (Test (new_task ''t5'' Run))"
    by auto
  have res1: "task_at ?r [0, 0] = Some (Test (new_task ''t1'' Skip))"
    by (simp add: interpret_scenario)
  from at1 p1 run1 root modes1 walk1 skip1 res1 at3 walk3 skip3 at5 modes5 walk5 same5
  show ?thesis
    by blast
qed

lemma mode_skipChild_not_Run: "mode (base (skipChild t)) \<noteq> Run"
  by (cases "mode (base t) = Run") (simp_all add: mode_skipChild_Run skipChild_other)

lemma mode_only_step_from_Run:
  "mode (base e) = Run \<Longrightarrow>
     mode (base (only_step om inc ao e)) = Run \<or> mode (base (only_step om inc ao e)) = Skip"
  by (simp add: only_step_def)

lemma mode_interpretChild_from_Run:
  assumes "mode (base e) = Run"
  shows "mode (base (interpretChild suites np om sio ao e)) = Run
       \<or> mode (base (interpretChild suites np om sio ao e)) = Skip"
proof (cases "type_of e")
  case TSuite
  then show ?thesis
    using mode_only_step_from_Run [OF assms, of om "sio \<or> mode (base e) = Only" ao]
    by (auto simp: interpretChild_Suite Let_def mode_interpretTaskModes)
next
  case TTest
  then show ?thesis
    using mode_only_step_from_Run [OF assms, of om "sio \<or> mode (base e) = Only" ao]
    by (auto simp: mode_interpretChild_Test split: option.splits)
next
  case TCustom
  then show ?thesis
    using mode_only_step_from_Run [OF assms, of om "sio \<or> mode (base e) = Only" ao]
    by (simp add: interpretChild_Custom)
qed

lemma type_of_interpretChild [simp]:
  "type_of (interpretChild suites np om sio ao c) = type_of c"
  by (cases "type_of c")
     (simp_all add: interpretChild_Suite interpretChild_Test interpretChild_Custom Let_def)

lemma tasks_leaf: "type_of c \<noteq> TSuite \<Longrightarrow> tasks c = []"
  by (cases c) simp_all

lemma skipped_interpretTaskModes_no_run:
  assumes "mode (base (interpretTaskModes suites s np om pio ao)) = Skip"
    and "mode (base s) \<noteq> Skip"
  shows "list_all (\<lambda>x. mode (base x) \<noteq> Run) (tasks (interpretTaskModes suites s np om pio ao))"
proof (cases "type_of s = TSuite")
  case True
  from mode_interpretTaskModes [OF True, of suites np om pio ao] assms show ?thesis
    by (simp add: Let_def split: if_splits)
next
  case False
  then have "tasks (interpretTaskModes suites s np om pio ao) = []"
    by (intro tasks_leaf) simp
  then show ?thesis by simp
qed

lemma skipped_child_no_run:
  assumes "mode (base (interpretChild suites np om sio ao c)) = Skip"
  shows "list_all (\<lambda>x. mode (base x) \<noteq> Run) (tasks (interpretChild suites np om sio ao c))"
proof (cases "type_of c = TSuite")
  case False
  then have "tasks (interpretChild suites np om sio ao c) = []"
    by (intro tasks_leaf) simp
  then show ?thesis by simp
next
  case True
  let ?c1 = "only_step om (sio \<or> mode (base c) = Only) ao c"
  show ?thesis
  proof (cases "mode (base ?c1) = Skip")
    case True
    with \<open>type_of c = TSuite\<close> show ?thesis
      by (simp add: interpretChild_Suite Let_def tasks_skipAllTasks list_all_iff
          mode_skipChild_not_Run)
  next
    case False
    with \<open>type_of c = TSuite\<close> assms show ?thesis
      by (simp add: interpretChild_Suite Let_def skipped_interpretTaskModes_no_run)
  qed
qed

lemma skipped_child_run_chain:
  "mode (base (interpretChild suites np om sio ao c)) = Skip \<Longrightarrow>
   task_at c q = Some d \<Longrightarrow>
   \<forall>a \<in> set (tasks_on_path c q). mode (base a) = Run \<Longrightarrow>
   \<exists>d'. task_at (interpretChild suites np om sio ao c) q = Some d' \<and> mode (base d') = Skip"
proof (induction q arbitrary: c suites sio)
  case Nil
  then show ?case by simp
next
  case (Cons i q)
  let ?c' = "interpretChild suites np om sio ao c"
  let ?inc = "sio \<or> mode (base c) = Only"
  let ?c1 = "only_step om ?inc ao c"
  let ?e = "tasks c ! i"
  from Cons.prems have i: "i < length (tasks c)" and d: "task_at ?e q = Some d"
    and e_run: "mode (base ?e) = Run"
    and rest: "\<forall>a \<in> set (tasks_on_path ?e q). mode (base a) = Run"
    by (simp_all split: if_splits)
  from i have "tasks c \<noteq> []" by auto
  then have suite: "type_of c = TSuite"
    by (rule tasks_nonempty_Suite)
  show ?case
  proof (cases "mode (base ?c1) = Skip")
    case True
    then have c': "?c' = skipAllTasks ?c1"
      using suite by (simp add: interpretChild_Suite Let_def)
    have same: "tasks ?c1 = tasks c"
      by simp
    have ne: "i # q \<noteq> []"
      by simp
    have at1: "task_at ?c1 (i # q) = Some d"
      using Cons.prems(2) task_at_tasks_eq [OF same ne] by (simp only:)
    have chain1: "\<forall>a \<in> set (tasks_on_path ?c1 (i # q)). mode (base a) = Run"
      using Cons.prems(3) tasks_on_path_tasks_eq [OF same, of "i # q"] by (simp only:)
    from skipAllTasks_run_chain [OF at1 ne chain1] c' show ?thesis
      by (simp only:)
  next
    case False
    let ?suites' = "name (base ?c1) # suites"
    have c': "?c' = interpretTaskModes ?suites' ?c1 np om ?inc ao"
      using False suite by (simp add: interpretChild_Suite Let_def)
    with Cons.prems(1) False
    have no_run: "list_all (\<lambda>x. mode (base x) \<noteq> Run) (tasks ?c')"
      by (simp add: skipped_interpretTaskModes_no_run)
    let ?e' = "interpretChild ?suites' np om (?inc \<or> mode (base ?c1) = Only) ao ?e"
    have child: "tasks ?c' ! i = ?e'"
      using i c' by (simp add: nth_tasks_interpretTaskModes)
    have len: "i < length (tasks ?c')"
      using i c' by simp
    with no_run child have "mode (base ?e') \<noteq> Run"
      by (auto simp: list_all_length)
    with mode_interpretChild_from_Run [OF e_run, of ?suites' np om "?inc \<or> mode (base ?c1) = Only" ao]
    have "mode (base ?e') = Skip"
      by blast
    from Cons.IH [OF this d rest] obtain d' where
      "task_at ?e' q = Some d'" "mode (base d') = Skip"
      by blast
    with len child show ?thesis
      by simp
  qed
qed

text \<open>
  After \<open>interpretTaskModes\<close>, take an outermost skipped suite: a task in mode \<open>skip\<close> none
  of whose enclosing suites below the interpreted suite is in mode \<open>skip\<close> (the
  interpreted suite itself counts when it was not in mode \<open>skip\<close> before the call). None
  of its children is in mode \<open>run\<close>, and every descendant that was in mode \<open>run\<close> before
  the call, and was linked to the suite by tasks in mode \<open>run\<close> only, is in mode \<open>skip\<close>.
\<close>

lemma outermost_skipped_suite:
  "task_at (interpretTaskModes suites s np om pio ao) p = Some S \<Longrightarrow>
   mode (base S) = Skip \<Longrightarrow>
   \<forall>a \<in> set (butlast (tasks_on_path (interpretTaskModes suites s np om pio ao) p)).
      mode (base a) \<noteq> Skip \<Longrightarrow>
   (p = [] \<longrightarrow> mode (base s) \<noteq> Skip) \<Longrightarrow>
   list_all (\<lambda>c. mode (base c) \<noteq> Run) (tasks S)
   \<and> (task_at s (p @ q) = Some d
        \<and> (\<forall>a \<in> set (drop (length p) (tasks_on_path s (p @ q))). mode (base a) = Run)
      \<longrightarrow> (\<exists>d'. task_at (interpretTaskModes suites s np om pio ao) (p @ q) = Some d'
             \<and> mode (base d') = Skip))"
proof (induction p arbitrary: s suites pio)
  case Nil
  let ?r = "interpretTaskModes suites s np om pio ao"
  from Nil have S: "S = ?r" and skip: "mode (base ?r) = Skip" and start: "mode (base s) \<noteq> Skip"
    by simp_all
  have no_run: "list_all (\<lambda>c. mode (base c) \<noteq> Run) (tasks ?r)"
    using skip start by (rule skipped_interpretTaskModes_no_run)
  have "\<exists>d'. task_at ?r q = Some d' \<and> mode (base d') = Skip"
    if d: "task_at s q = Some d" and run: "\<forall>a \<in> set (tasks_on_path s q). mode (base a) = Run"
  proof (cases q)
    case Nil
    with skip show ?thesis by simp
  next
    case (Cons i q')
    let ?e = "tasks s ! i"
    let ?e' = "interpretChild suites np om (pio \<or> mode (base s) = Only) ao ?e"
    from d run Cons have i: "i < length (tasks s)" and d': "task_at ?e q' = Some d"
      and e_run: "mode (base ?e) = Run"
      and rest: "\<forall>a \<in> set (tasks_on_path ?e q'). mode (base a) = Run"
      by (simp_all split: if_splits)
    have child: "tasks ?r ! i = ?e'"
      using i by (rule nth_tasks_interpretTaskModes)
    have len: "i < length (tasks ?r)"
      using i by simp
    with no_run child have "mode (base ?e') \<noteq> Run"
      by (auto simp: list_all_length)
    with mode_interpretChild_from_Run [OF e_run, of suites np om "pio \<or> mode (base s) = Only" ao]
    have "mode (base ?e') = Skip"
      by blast
    from skipped_child_run_chain [OF this d' rest] obtain x where
      "task_at ?e' q' = Some x" "mode (base x) = Skip"
      by blast
    with len child Cons show ?thesis
      by simp
  qed
  with S no_run show ?case
    by simp
next
  case (Cons i p)
  let ?r = "interpretTaskModes suites s np om pio ao"
  let ?sio = "pio \<or> mode (base s) = Only"
  let ?a = "tasks s ! i"
  let ?a' = "interpretChild suites np om ?sio ao ?a"
  from Cons.prems(1) have len: "i < length (tasks ?r)" and S: "task_at (tasks ?r ! i) p = Some S"
    by (simp_all split: if_splits)
  from len have i: "i < length (tasks s)"
    by simp
  have child: "tasks ?r ! i = ?a'"
    using i by (rule nth_tasks_interpretTaskModes)
  have at_r: "\<And>x. task_at ?r (i # x) = task_at ?a' x"
    using len child by simp
  have at_s: "\<And>x. task_at s (i # x) = task_at ?a x"
    using i by simp
  have path_s: "\<And>x. tasks_on_path s (i # x) = ?a # tasks_on_path ?a x"
    using i by simp
  have path_r: "tasks_on_path ?r (i # p) = ?a' # tasks_on_path ?a' p"
    using len child by simp
  show ?case
  proof (cases "p = []")
    case True
    with S child have S_eq: "S = ?a'" by simp
    with Cons.prems(2) have skip: "mode (base ?a') = Skip" by simp
    have no_run: "list_all (\<lambda>c. mode (base c) \<noteq> Run) (tasks ?a')"
      using skip by (rule skipped_child_no_run)
    have chain: "\<exists>d'. task_at ?r ([i] @ q) = Some d' \<and> mode (base d') = Skip"
      if h1: "task_at s ([i] @ q) = Some d"
        and h2: "\<forall>a \<in> set (drop (length [i]) (tasks_on_path s ([i] @ q))). mode (base a) = Run"
    proof -
      have app: "[i] @ q = i # q"
        by simp
      from h1 have d: "task_at ?a q = Some d"
        unfolding app at_s .
      have "drop (length [i]) (tasks_on_path s ([i] @ q)) = tasks_on_path ?a q"
        unfolding app path_s by simp
      with h2 have run: "\<forall>a \<in> set (tasks_on_path ?a q). mode (base a) = Run"
        by (simp only:)
      from skipped_child_run_chain [OF skip d run] show ?thesis
        unfolding app at_r .
    qed
    have "list_all (\<lambda>c. mode (base c) \<noteq> Run) (tasks S)"
      using no_run S_eq by (simp only:)
    with chain show ?thesis
      unfolding True by blast
  next
    case False
    let ?inc = "?sio \<or> mode (base ?a) = Only"
    let ?a1 = "only_step om ?inc ao ?a"
    let ?suites' = "name (base ?a1) # suites"
    let ?r' = "interpretTaskModes ?suites' ?a1 np om ?inc ao"
    from S child False have "tasks ?a' \<noteq> []"
      by (cases p) auto
    then have "type_of ?a' = TSuite"
      by (rule tasks_nonempty_Suite)
    then have suite: "type_of ?a = TSuite"
      by simp
    from False have "butlast (tasks_on_path ?r (i # p)) = ?a' # butlast (tasks_on_path ?a' p)"
      using path_r S child by (cases p) (auto split: if_splits)
    with Cons.prems(3) have a'_kept: "mode (base ?a') \<noteq> Skip"
      and above: "\<forall>a \<in> set (butlast (tasks_on_path ?a' p)). mode (base a) \<noteq> Skip"
      by simp_all
    have "mode (base ?a1) \<noteq> Skip"
    proof
      assume "mode (base ?a1) = Skip"
      with suite have "mode (base ?a') = Skip"
        by (simp add: interpretChild_Suite Let_def)
      with a'_kept show False by simp
    qed
    with suite have a': "?a' = ?r'"
      by (simp add: interpretChild_Suite Let_def)
    have same: "tasks ?a1 = tasks ?a"
      by simp
    have at_a1: "task_at ?a1 (p @ q) = task_at ?a (p @ q)"
      using False by (intro task_at_tasks_eq [OF same]) simp
    have path_a1: "tasks_on_path ?a1 (p @ q) = tasks_on_path ?a (p @ q)"
      by (rule tasks_on_path_tasks_eq [OF same])
    have S': "task_at ?r' p = Some S"
      using S child a' by simp
    have above': "\<forall>a \<in> set (butlast (tasks_on_path ?r' p)). mode (base a) \<noteq> Skip"
      using above a' by simp
    have start: "p = [] \<longrightarrow> mode (base ?a1) \<noteq> Skip"
      using False by simp
    from Cons.IH [OF S' Cons.prems(2) above' start]
    have "list_all (\<lambda>c. mode (base c) \<noteq> Run) (tasks S)
      \<and> (task_at ?a1 (p @ q) = Some d
           \<and> (\<forall>a \<in> set (drop (length p) (tasks_on_path ?a1 (p @ q))). mode (base a) = Run)
         \<longrightarrow> (\<exists>d'. task_at ?r' (p @ q) = Some d' \<and> mode (base d') = Skip))" .
    note ih = this
    have e1: "task_at s ((i # p) @ q) = task_at ?a1 (p @ q)"
      unfolding append_Cons at_s at_a1 ..
    have e2: "drop (length (i # p)) (tasks_on_path s ((i # p) @ q))
                   = drop (length p) (tasks_on_path ?a1 (p @ q))"
      unfolding append_Cons path_s path_a1 by simp
    have e3: "task_at ?r ((i # p) @ q) = task_at ?r' (p @ q)"
      unfolding append_Cons at_r a' ..
    show ?thesis
      unfolding e1 e2 e3 by (rule ih)
  qed
qed

lemma skipAllTasks_untouched:
  "\<not> list_all (\<lambda>x. mode (base x) = Run) (tasks_on_path s q) \<Longrightarrow>
   task_at (skipAllTasks s) q = task_at s q"
proof (induction q arbitrary: s)
  case Nil
  then show ?case by simp
next
  case (Cons i q)
  let ?c = "tasks s ! i"
  show ?case
  proof (cases "i < length (tasks s)")
    case False
    then show ?thesis
      by (simp add: tasks_skipAllTasks)
  next
    case i: True
    have at: "task_at (skipAllTasks s) (i # q) = task_at (skipChild ?c) q"
      using i by (simp add: tasks_skipAllTasks)
    have at_s: "task_at s (i # q) = task_at ?c q"
      using i by simp
    show ?thesis
    proof (cases "mode (base ?c) = Run")
      case False
      then show ?thesis
        unfolding at at_s by (simp add: skipChild_other)
    next
      case True
      with Cons.prems i
      have rest: "\<not> list_all (\<lambda>x. mode (base x) = Run) (tasks_on_path ?c q)"
        by simp
      then have ne: "q \<noteq> []"
        by auto
      let ?c' = "set_mode Skip ?c"
      have same: "tasks ?c' = tasks ?c"
        by simp
      have d': "task_at ?c' q = task_at ?c q"
        using same ne by (rule task_at_tasks_eq)
      show ?thesis
      proof (cases "type_of ?c = TSuite")
        case suite: True
        have rest': "\<not> list_all (\<lambda>x. mode (base x) = Run) (tasks_on_path ?c' q)"
          unfolding tasks_on_path_tasks_eq [OF same, of q] using rest .
        have "skipChild ?c = skipAllTasks ?c'"
          using True suite by (simp add: skipChild_def Let_def)
        with Cons.IH [OF rest'] d' show ?thesis
          unfolding at at_s by (simp only:)
      next
        case False
        with True have "skipChild ?c = ?c'"
          by (simp add: skipChild_def Let_def)
        with d' show ?thesis
          unfolding at at_s by (simp only:)
      qed
    qed
  qed
qed

lemma skipAllTasks_no_run_child:
  "task_at (skipAllTasks s) q = Some S \<Longrightarrow> q \<noteq> [] \<Longrightarrow>
   \<forall>a \<in> set (tasks_on_path s q). mode (base a) = Run \<Longrightarrow>
   list_all (\<lambda>c. mode (base c) \<noteq> Run) (tasks S)"
proof (induction q arbitrary: s S)
  case Nil
  then show ?case by simp
next
  case (Cons i q)
  let ?c = "tasks s ! i"
  from Cons.prems(1) have i: "i < length (tasks s)"
    by (simp add: tasks_skipAllTasks split: if_splits)
  with Cons.prems(1) have S: "task_at (skipChild ?c) q = Some S"
    by (simp add: tasks_skipAllTasks)
  from Cons.prems(3) i have run: "mode (base ?c) = Run"
    and rest: "\<forall>a \<in> set (tasks_on_path ?c q). mode (base a) = Run"
    by simp_all
  show ?case
  proof (cases "q = []")
    case True
    with S have "S = skipChild ?c" by simp
    with run show ?thesis
      by (simp add: tasks_skipChild_Run list_all_iff mode_skipChild_not_Run)
  next
    case False
    with S have "tasks (skipChild ?c) \<noteq> []"
      by (cases q) (auto split: if_splits)
    then have "tasks ?c \<noteq> []"
      using run by (simp add: tasks_skipChild_Run)
    then have suite: "type_of ?c = TSuite"
      by (rule tasks_nonempty_Suite)
    let ?c' = "set_mode Skip ?c"
    have same: "tasks ?c' = tasks ?c"
      by simp
    have eq: "skipChild ?c = skipAllTasks ?c'"
      using run suite by (simp add: skipChild_def Let_def)
    have S': "task_at (skipAllTasks ?c') q = Some S"
      using S unfolding eq .
    have rest': "\<forall>a \<in> set (tasks_on_path ?c' q). mode (base a) = Run"
      unfolding tasks_on_path_tasks_eq [OF same, of q] using rest .
    from Cons.IH [OF S' False rest'] show ?thesis .
  qed
qed

lemma take_tasks_on_path:
  "take (length p) (tasks_on_path s (p @ q)) = tasks_on_path s p"
  by (induction p arbitrary: s) simp_all

lemma run_chain_append:
  assumes "list_all (\<lambda>x. mode (base x) = Run) (tasks_on_path s p)"
    and "\<forall>a \<in> set (drop (length p) (tasks_on_path s (p @ q))). mode (base a) = Run"
  shows "\<forall>a \<in> set (tasks_on_path s (p @ q)). mode (base a) = Run"
proof -
  have "tasks_on_path s (p @ q)
      = tasks_on_path s p @ drop (length p) (tasks_on_path s (p @ q))"
    using append_take_drop_id [of "length p" "tasks_on_path s (p @ q)"]
    by (simp only: take_tasks_on_path)
  then have "set (tasks_on_path s (p @ q))
      = set (tasks_on_path s p) \<union> set (drop (length p) (tasks_on_path s (p @ q)))"
    by (metis set_append)
  with assms show ?thesis
    by (auto simp: list_all_iff)
qed

lemma interpret_todo_suite:
  "interpretTaskModes [] todo_suite None False False False =
     Suite (new_task ''root'' Skip) [Suite (new_task ''S'' Skip) [Test (new_task ''later'' Todo)]]"
  by (simp add: todo_suite_def interpretTaskModes_Suite interpretChild_def only_step_def
      name_step_def collapse_def new_task_def)

text \<open>
  C2, as the code has it. Take any call of \<open>interpretTaskModes\<close> and a task below the
  interpreted suite, or that suite itself when it was not in mode \<open>skip\<close> before the call.
  The call does not visit the task when one of its enclosing suites is left in mode
  \<open>skip\<close> by the only-rule and the tasks from below the outermost such suite down to the
  task itself were not all in mode \<open>run\<close>. A task that is visited and ends in mode \<open>skip\<close>
  has no child in mode \<open>run\<close>, and every descendant of it that was in mode \<open>run\<close> before
  the call, and was linked to it by tasks in mode \<open>run\<close> only, ends in mode \<open>skip\<close>. A
  task that is not visited is left as it was before the call, with all below it.
\<close>

theorem skip_propagation:
  "task_at (interpretTaskModes suites s np om pio ao) p = Some S \<Longrightarrow>
   (p = [] \<longrightarrow> mode (base s) \<noteq> Skip) \<Longrightarrow>
   (mode_walk om (pio \<or> mode (base s) = Only) ao (tasks_on_path s p) \<noteq> Unvisited
      \<and> mode (base S) = Skip \<longrightarrow>
        list_all (\<lambda>c. mode (base c) \<noteq> Run) (tasks S)
        \<and> (task_at s (p @ q) = Some d
             \<and> (\<forall>a \<in> set (drop (length p) (tasks_on_path s (p @ q))). mode (base a) = Run)
           \<longrightarrow> (\<exists>d'. task_at (interpretTaskModes suites s np om pio ao) (p @ q) = Some d'
                  \<and> mode (base d') = Skip)))
   \<and> (mode_walk om (pio \<or> mode (base s) = Only) ao (tasks_on_path s p) = Unvisited
        \<longrightarrow> task_at s p = Some S)"
proof (induction p arbitrary: s suites pio)
  case Nil
  let ?r = "interpretTaskModes suites s np om pio ao"
  from Nil have S: "S = ?r" and start: "mode (base s) \<noteq> Skip"
    by simp_all
  have main: "list_all (\<lambda>c. mode (base c) \<noteq> Run) (tasks ?r)
        \<and> (task_at s q = Some d \<and> (\<forall>a \<in> set (tasks_on_path s q). mode (base a) = Run)
           \<longrightarrow> (\<exists>d'. task_at ?r q = Some d' \<and> mode (base d') = Skip))"
    if skip: "mode (base ?r) = Skip"
  proof -
    have no_run: "list_all (\<lambda>c. mode (base c) \<noteq> Run) (tasks ?r)"
      using skip start by (rule skipped_interpretTaskModes_no_run)
    have "\<exists>d'. task_at ?r q = Some d' \<and> mode (base d') = Skip"
      if d: "task_at s q = Some d" and run: "\<forall>a \<in> set (tasks_on_path s q). mode (base a) = Run"
    proof (cases q)
      case Nil
      with skip show ?thesis by simp
    next
      case (Cons i q')
      let ?e = "tasks s ! i"
      let ?e' = "interpretChild suites np om (pio \<or> mode (base s) = Only) ao ?e"
      from d run Cons have i: "i < length (tasks s)" and d': "task_at ?e q' = Some d"
        and e_run: "mode (base ?e) = Run"
        and rest: "\<forall>a \<in> set (tasks_on_path ?e q'). mode (base a) = Run"
        by (simp_all split: if_splits)
      have child: "tasks ?r ! i = ?e'"
        using i by (rule nth_tasks_interpretTaskModes)
      have len: "i < length (tasks ?r)"
        using i by simp
      with no_run child have "mode (base ?e') \<noteq> Run"
        by (auto simp: list_all_length)
      with mode_interpretChild_from_Run [OF e_run, of suites np om "pio \<or> mode (base s) = Only" ao]
      have "mode (base ?e') = Skip"
        by blast
      from skipped_child_run_chain [OF this d' rest] obtain x where
        "task_at ?e' q' = Some x" "mode (base x) = Skip"
        by blast
      with len child Cons show ?thesis
        by simp
    qed
    with no_run show ?thesis
      by blast
  qed
  with S show ?case
    by simp
next
  case (Cons i p)
  let ?r = "interpretTaskModes suites s np om pio ao"
  let ?sio = "pio \<or> mode (base s) = Only"
  let ?a = "tasks s ! i"
  let ?a' = "interpretChild suites np om ?sio ao ?a"
  let ?inc = "?sio \<or> mode (base ?a) = Only"
  let ?a1 = "only_step om ?inc ao ?a"
  from Cons.prems(1) have len: "i < length (tasks ?r)" and S: "task_at (tasks ?r ! i) p = Some S"
    by (simp_all split: if_splits)
  from len have i: "i < length (tasks s)"
    by simp
  have child: "tasks ?r ! i = ?a'"
    using i by (rule nth_tasks_interpretTaskModes)
  have S_a': "task_at ?a' p = Some S"
    using S child by (simp only:)
  have at_r: "\<And>x. task_at ?r (i # x) = task_at ?a' x"
    using len child by simp
  have at_s: "\<And>x. task_at s (i # x) = task_at ?a x"
    using i by simp
  have path_s: "\<And>x. tasks_on_path s (i # x) = ?a # tasks_on_path ?a x"
    using i by simp
  have same: "tasks ?a1 = tasks ?a"
    by simp
  have walk: "mode_walk om ?sio ao (tasks_on_path s (i # p)) =
      (if mode (base ?a1) = Skip
       then (if list_all (\<lambda>x. mode (base x) = Run) (tasks_on_path ?a p)
             then ForceSkipped else Unvisited)
       else mode_walk om (?inc \<or> mode (base ?a1) = Only) ao (tasks_on_path ?a p))"
    unfolding path_s by (simp only: mode_walk.simps Let_def)
  have e1: "task_at s ((i # p) @ q) = task_at ?a (p @ q)"
    unfolding append_Cons at_s ..
  have e2: "drop (length (i # p)) (tasks_on_path s ((i # p) @ q))
                 = drop (length p) (tasks_on_path ?a (p @ q))"
    unfolding append_Cons path_s by simp
  have e3: "task_at ?r ((i # p) @ q) = task_at ?a' (p @ q)"
    unfolding append_Cons at_r ..
  have e4: "task_at s (i # p) = task_at ?a p"
    by (rule at_s)
  show ?case
  proof (cases "p = []")
    case True
    with S_a' have S_eq: "S = ?a'" by simp
    have nowalk: "mode_walk om ?sio ao (tasks_on_path s (i # p)) \<noteq> Unvisited"
      using walk True by simp
    have concl: "list_all (\<lambda>c. mode (base c) \<noteq> Run) (tasks S)
        \<and> (task_at ?a (p @ q) = Some d
             \<and> (\<forall>a \<in> set (drop (length p) (tasks_on_path ?a (p @ q))). mode (base a) = Run)
           \<longrightarrow> (\<exists>d'. task_at ?a' (p @ q) = Some d' \<and> mode (base d') = Skip))"
      if skipS: "mode (base S) = Skip"
    proof -
      from skipS S_eq have skip: "mode (base ?a') = Skip" by simp
      have no_run: "list_all (\<lambda>c. mode (base c) \<noteq> Run) (tasks ?a')"
        using skip by (rule skipped_child_no_run)
      have "\<exists>d'. task_at ?a' q = Some d' \<and> mode (base d') = Skip"
        if d: "task_at ?a q = Some d"
          and run: "\<forall>a \<in> set (tasks_on_path ?a q). mode (base a) = Run"
        using skip d run by (rule skipped_child_run_chain)
      with no_run S_eq show ?thesis
        unfolding True by simp
    qed
    show ?thesis
      unfolding e1 e2 e3 e4 using nowalk concl by blast
  next
    case False
    from S_a' False have "tasks ?a' \<noteq> []"
      by (cases p) auto
    then have "type_of ?a' = TSuite"
      by (rule tasks_nonempty_Suite)
    then have suite: "type_of ?a = TSuite"
      by simp
    have at_a1: "\<And>x. task_at ?a1 (p @ x) = task_at ?a (p @ x)"
      using False by (intro task_at_tasks_eq [OF same]) simp
    have at_a1p: "task_at ?a1 p = task_at ?a p"
      using same False by (rule task_at_tasks_eq)
    have path_a1: "\<And>x. tasks_on_path ?a1 x = tasks_on_path ?a x"
      by (rule tasks_on_path_tasks_eq [OF same])
    show ?thesis
    proof (cases "mode (base ?a1) = Skip")
      case forced: True
      with suite have a': "?a' = skipAllTasks ?a1"
        by (simp add: interpretChild_Suite Let_def)
      show ?thesis
      proof (cases "list_all (\<lambda>x. mode (base x) = Run) (tasks_on_path ?a p)")
        case chain: True
        have w: "mode_walk om ?sio ao (tasks_on_path s (i # p)) = ForceSkipped"
          unfolding walk using forced chain by simp
        have run_p: "\<forall>a \<in> set (tasks_on_path ?a1 p). mode (base a) = Run"
          unfolding path_a1 using chain by (simp add: list_all_iff)
        have S_skip: "task_at (skipAllTasks ?a1) p = Some S"
          using S_a' a' by (simp only:)
        have no_run: "list_all (\<lambda>c. mode (base c) \<noteq> Run) (tasks S)"
          using S_skip False run_p by (rule skipAllTasks_no_run_child)
        have "\<exists>d'. task_at ?a' (p @ q) = Some d' \<and> mode (base d') = Skip"
          if d: "task_at ?a (p @ q) = Some d"
            and run: "\<forall>a \<in> set (drop (length p) (tasks_on_path ?a (p @ q))). mode (base a) = Run"
        proof -
          have d1: "task_at ?a1 (p @ q) = Some d"
            unfolding at_a1 using d .
          have ne: "p @ q \<noteq> []"
            using False by simp
          have all: "\<forall>a \<in> set (tasks_on_path ?a1 (p @ q)). mode (base a) = Run"
            unfolding path_a1 using chain run by (rule run_chain_append)
          from skipAllTasks_run_chain [OF d1 ne all] show ?thesis
            unfolding a' .
        qed
        with no_run show ?thesis
          unfolding e1 e2 e3 e4 w by simp
      next
        case broken: False
        have w: "mode_walk om ?sio ao (tasks_on_path s (i # p)) = Unvisited"
          unfolding walk using forced broken by simp
        have "\<not> list_all (\<lambda>x. mode (base x) = Run) (tasks_on_path ?a1 p)"
          unfolding path_a1 using broken .
        then have "task_at (skipAllTasks ?a1) p = task_at ?a1 p"
          by (rule skipAllTasks_untouched)
        with S_a' a' at_a1p have "task_at ?a p = Some S"
          by (simp only:)
        then show ?thesis
          unfolding e1 e2 e3 e4 w by simp
      qed
    next
      case kept: False
      let ?suites' = "name (base ?a1) # suites"
      let ?r' = "interpretTaskModes ?suites' ?a1 np om ?inc ao"
      from kept suite have a': "?a' = ?r'"
        by (simp add: interpretChild_Suite Let_def)
      have w: "mode_walk om ?sio ao (tasks_on_path s (i # p))
             = mode_walk om (?inc \<or> mode (base ?a1) = Only) ao (tasks_on_path ?a1 p)"
        unfolding walk path_a1 using kept by simp
      have S': "task_at ?r' p = Some S"
        using S_a' a' by (simp only:)
      have start: "p = [] \<longrightarrow> mode (base ?a1) \<noteq> Skip"
        using False by simp
      note ih = Cons.IH [OF S' start]
      have e1': "task_at s ((i # p) @ q) = task_at ?a1 (p @ q)"
        unfolding e1 at_a1 ..
      have e2': "drop (length (i # p)) (tasks_on_path s ((i # p) @ q))
                 = drop (length p) (tasks_on_path ?a1 (p @ q))"
        unfolding e2 path_a1 ..
      have e3': "task_at ?r ((i # p) @ q) = task_at ?r' (p @ q)"
        unfolding e3 a' ..
      have e4': "task_at s (i # p) = task_at ?a1 p"
        unfolding e4 at_a1p ..
      show ?thesis
        unfolding e1' e2' e3' e4' w by (rule ih)
    qed
  qed
qed

theorem skip_propagation_witness:
  "task_at (interpretTaskModes [] scenario None True False True) [1]
     = Some (Suite (new_task ''S2'' Skip) [Test (new_task ''t3'' Skip)])
   \<and> [1] \<noteq> ([] :: nat list)
   \<and> mode_walk True (False \<or> mode (base scenario) = Only) True (tasks_on_path scenario [1])
       = ForceSkipped
   \<and> mode (base (Suite (new_task ''S2'' Skip) [Test (new_task ''t3'' Skip)])) = Skip
   \<and> task_at scenario ([1] @ [0]) = Some (Test (new_task ''t3'' Run))
   \<and> map (\<lambda>a. mode (base a)) (drop (length [1 :: nat]) (tasks_on_path scenario ([1] @ [0])))
       = [Run]
   \<and> list_all (\<lambda>c. mode (base c) \<noteq> Run)
         (tasks (Suite (new_task ''S2'' Skip) [Test (new_task ''t3'' Skip)]))
   \<and> (\<exists>d'. task_at (interpretTaskModes [] scenario None True False True) ([1] @ [0]) = Some d'
          \<and> mode (base d') = Skip)
   \<and> task_at (interpretTaskModes [] todo_suite None False False False) [0]
       = Some (Suite (new_task ''S'' Skip) [Test (new_task ''later'' Todo)])
   \<and> mode_walk False (False \<or> mode (base todo_suite) = Only) False (tasks_on_path todo_suite [0])
       = Interpreted
   \<and> list_all (\<lambda>c. mode (base c) \<noteq> Run)
         (tasks (Suite (new_task ''S'' Skip) [Test (new_task ''later'' Todo)]))
   \<and> task_at (interpretTaskModes [] nested_skip None True False True) [1, 0]
       = Some (Suite (new_task ''S4'' Todo) [Test (new_task ''t5'' Run)])
   \<and> mode_walk True (False \<or> mode (base nested_skip) = Only) True
         (tasks_on_path nested_skip [1, 0]) = Unvisited
   \<and> task_at nested_skip [1, 0] = Some (Suite (new_task ''S4'' Todo) [Test (new_task ''t5'' Run)])"
proof -
  let ?r = "interpretTaskModes [] scenario None True False True"
  let ?S2 = "Suite (new_task ''S2'' Skip) [Test (new_task ''t3'' Skip)]"
  let ?t = "interpretTaskModes [] todo_suite None False False False"
  let ?S = "Suite (new_task ''S'' Skip) [Test (new_task ''later'' Todo)]"
  let ?n = "interpretTaskModes [] nested_skip None True False True"
  let ?S4 = "Suite (new_task ''S4'' Todo) [Test (new_task ''t5'' Run)]"
  have at2: "task_at ?r [1] = Some ?S2"
    by (simp add: interpret_scenario)
  have at: "task_at ?t [0] = Some ?S"
    by (simp add: interpret_todo_suite)
  have at4: "task_at ?n [1, 0] = Some ?S4"
    by (simp add: interpret_nested_skip)
  have p2: "[1] \<noteq> ([] :: nat list)"
    by simp
  have start2: "[1] = ([] :: nat list) \<longrightarrow> mode (base scenario) \<noteq> Skip"
    and start: "[0] = ([] :: nat list) \<longrightarrow> mode (base todo_suite) \<noteq> Skip"
    and start4: "[1, 0] = ([] :: nat list) \<longrightarrow> mode (base nested_skip) \<noteq> Skip"
    by simp_all
  have walk2: "mode_walk True (False \<or> mode (base scenario) = Only) True
                 (tasks_on_path scenario [1]) = ForceSkipped"
    by (simp add: scenario_def new_task_def only_step_def)
  have walk: "mode_walk False (False \<or> mode (base todo_suite) = Only) False
                (tasks_on_path todo_suite [0]) = Interpreted"
    by (simp add: todo_suite_def new_task_def only_step_def)
  have walk4: "mode_walk True (False \<or> mode (base nested_skip) = Only) True
                 (tasks_on_path nested_skip [1, 0]) = Unvisited"
    by (simp add: nested_skip_def new_task_def only_step_def)
  have skip2: "mode (base ?S2) = Skip" and skip: "mode (base ?S) = Skip"
    by (simp_all add: new_task_def)
  have d: "task_at scenario ([1] @ [0]) = Some (Test (new_task ''t3'' Run))"
    by (simp add: scenario_def)
  have modes: "map (\<lambda>a. mode (base a)) (drop (length [1 :: nat]) (tasks_on_path scenario ([1] @ [0])))
       = [Run]"
    by (simp add: scenario_def new_task_def)
  have run: "\<forall>a \<in> set (drop (length [1 :: nat]) (tasks_on_path scenario ([1] @ [0]))).
               mode (base a) = Run"
    by (simp add: scenario_def new_task_def)
  from skip_propagation [OF at2 start2, of "[0]" "Test (new_task ''t3'' Run)"] walk2 skip2 d run
  have c2: "list_all (\<lambda>c. mode (base c) \<noteq> Run) (tasks ?S2)
        \<and> (\<exists>d'. task_at ?r ([1] @ [0]) = Some d' \<and> mode (base d') = Skip)"
    by auto
  from skip_propagation [OF at start, of "[]" "tasks todo_suite ! 0"] walk skip
  have c: "list_all (\<lambda>c. mode (base c) \<noteq> Run) (tasks ?S)"
    by auto
  from skip_propagation [OF at4 start4, of "[]" "tasks nested_skip ! 0"] walk4
  have c4: "task_at nested_skip [1, 0] = Some ?S4"
    by auto
  from at2 p2 walk2 skip2 d modes c2 at walk c at4 walk4 c4
  show ?thesis
    by blast
qed

text \<open>
  A suite whose only test is in mode \<open>todo\<close> has no child in mode \<open>run\<close> and becomes
  \<open>skip\<close>; its test is left in mode \<open>todo\<close>. In the file \<open>nested_skip\<close> the test \<open>t5\<close>
  inside the skipped suite \<open>S3\<close> is left in mode \<open>run\<close>.
\<close>

theorem skip_propagation_counterexample:
  "mode (base (tasks (interpretTaskModes [] todo_suite None False False False) ! 0)) = Skip
   \<and> mode (base (tasks (tasks (interpretTaskModes [] todo_suite None False False False) ! 0) ! 0))
       = Todo
   \<and> mode (base (tasks (interpretTaskModes [] nested_skip None True False True) ! 1)) = Skip
   \<and> mode (base (tasks (tasks (tasks
         (interpretTaskModes [] nested_skip None True False True) ! 1) ! 0) ! 0)) = Run"
  by (simp add: interpret_todo_suite interpret_nested_skip) (simp add: new_task_def)

end
